theory Spec2Isabelle
  imports Main "HOL-Library.Word"
begin

section \<open>Machine model\<close>

text \<open>
  The pool allocator of \<^verbatim>\<open>lpool.hpp\<close> works on raw memory: a free chunk's first
  pointer-sized bytes are reinterpreted as the \<^verbatim>\<open>next\<close> link, and the block table is
  itself a heap array. The model is therefore a byte-addressed store on a 64-bit
  machine (\<^verbatim>\<open>usize\<close> and pointers are 64-bit words, \<^verbatim>\<open>sizeof(ptr) = 8\<close>, little
  endian), together with the list of live allocations. An access through the null
  pointer or outside every live allocation is undefined behaviour in the source; the
  model makes it a \<open>fault\<close> value, so a theorem that an operation returns \<open>Inr\<close> also
  says that the operation stayed inside live memory.
\<close>

type_synonym usize = "64 word"
type_synonym addr = "64 word"
type_synonym byte = "8 word"

datatype fault = NullDeref | OutOfBounds addr | InvalidFree addr

record heap =
  bytes :: "addr \<Rightarrow> byte"
  regions :: "(addr \<times> nat) list"
  free_calls :: "addr list"

text \<open>Little-endian encoding of a pointer in eight bytes.\<close>

fun word_of_bytes :: "byte list \<Rightarrow> 64 word" where
  "word_of_bytes [] = 0"
| "word_of_bytes (b # bs) = ucast b + 256 * word_of_bytes bs"

fun bytes_of_word :: "nat \<Rightarrow> 64 word \<Rightarrow> byte list" where
  "bytes_of_word 0 w = []"
| "bytes_of_word (Suc n) w = ucast w # bytes_of_word n (drop_bit 8 w)"

fun read_bytes :: "(addr \<Rightarrow> byte) \<Rightarrow> addr \<Rightarrow> nat \<Rightarrow> byte list" where
  "read_bytes m a 0 = []"
| "read_bytes m a (Suc n) = m a # read_bytes m (a + 1) n"

fun write_bytes :: "(addr \<Rightarrow> byte) \<Rightarrow> addr \<Rightarrow> byte list \<Rightarrow> (addr \<Rightarrow> byte)" where
  "write_bytes m a [] = m"
| "write_bytes m a (b # bs) = write_bytes (m(a := b)) (a + 1) bs"

text \<open>
  \<open>accessible h a len\<close>: the bytes \<open>[a, a + len)\<close> lie inside one live allocation, which
  itself lies inside the address space.
\<close>

definition accessible :: "heap \<Rightarrow> addr \<Rightarrow> nat \<Rightarrow> bool" where
  "accessible h a len =
     list_ex (\<lambda>(b, n). unat b \<le> unat a \<and> unat a + len \<le> unat b + n \<and> unat b + n \<le> 2 ^ 64)
       (regions h)"

text \<open>Reading and writing a pointer-sized field (\<^verbatim>\<open>chunk->next\<close>, \<^verbatim>\<open>m_blocks[i]\<close>).\<close>

definition load_ptr :: "heap \<Rightarrow> addr \<Rightarrow> fault + addr" where
  "load_ptr h a =
     (if a = 0 then Inl NullDeref
      else if \<not> accessible h a 8 then Inl (OutOfBounds a)
      else Inr (word_of_bytes (read_bytes (bytes h) a 8)))"

definition store_ptr :: "heap \<Rightarrow> addr \<Rightarrow> addr \<Rightarrow> fault + heap" where
  "store_ptr h a v =
     (if a = 0 then Inl NullDeref
      else if \<not> accessible h a 8 then Inl (OutOfBounds a)
      else Inr (h\<lparr>bytes := write_bytes (bytes h) a (bytes_of_word 8 v)\<rparr>))"

subsection \<open>The C library's allocator\<close>

text \<open>
  \<^verbatim>\<open>std::malloc\<close>, \<^verbatim>\<open>std::calloc\<close> and \<^verbatim>\<open>std::free\<close> are outside the repository. What
  the library answers is an input of the model: the argument \<open>r\<close> is the pointer the
  call returns, \<open>0\<close> for a refused request. \<open>fresh h r n\<close> is what the C standard
  promises of a non-null answer to a request of \<open>n\<close> bytes: the block lies inside
  the address space and overlaps no live allocation.
\<close>

definition fresh :: "heap \<Rightarrow> addr \<Rightarrow> nat \<Rightarrow> bool" where
  "fresh h r n =
     (r \<noteq> 0 \<and> unat r + n \<le> 2 ^ 64 \<and>
      list_all (\<lambda>(b, m). r \<noteq> b \<and> (unat r + n \<le> unat b \<or> unat b + m \<le> unat r)) (regions h))"

definition std_malloc :: "heap \<Rightarrow> usize \<Rightarrow> addr \<Rightarrow> heap" where
  "std_malloc h n r = (if r = 0 then h else h\<lparr>regions := (r, unat n) # regions h\<rparr>)"

definition zero_fill :: "(addr \<Rightarrow> byte) \<Rightarrow> addr \<Rightarrow> nat \<Rightarrow> (addr \<Rightarrow> byte)" where
  "zero_fill m a n = (\<lambda>c. if unat a \<le> unat c \<and> unat c < unat a + n then 0 else m c)"

definition std_calloc :: "heap \<Rightarrow> usize \<Rightarrow> usize \<Rightarrow> addr \<Rightarrow> heap" where
  "std_calloc h nmemb sz r =
     (if r = 0 then h
      else h\<lparr>bytes := zero_fill (bytes h) r (unat nmemb * unat sz),
             regions := (r, unat nmemb * unat sz) # regions h\<rparr>)"

text \<open>
  \<^verbatim>\<open>free(nullptr)\<close> does nothing; freeing anything but the base of a live allocation is
  undefined. Every call is recorded in \<open>free_calls\<close>, in call order.
\<close>

definition std_free :: "heap \<Rightarrow> addr \<Rightarrow> fault + heap" where
  "std_free h p =
     (if p = 0 then Inr (h\<lparr>free_calls := free_calls h @ [p]\<rparr>)
      else if list_ex (\<lambda>(b, n). b = p) (regions h)
      then Inr (h\<lparr>regions := filter (\<lambda>(b, n). b \<noteq> p) (regions h),
                  free_calls := free_calls h @ [p]\<rparr>)
      else Inl (InvalidFree p))"

section \<open>The pool allocator\<close>

text \<open>
  The fields of \<^verbatim>\<open>PoolAllocator<T>\<close>. \<open>m_chunk_size\<close> is \<^verbatim>\<open>sizeof(T)\<close>, a parameter of
  the model. The diagnostic \<^verbatim>\<open>fprintf\<close> calls guarded by \<^verbatim>\<open>lpool_log_level\<close> change no
  state and are left out.
\<close>

record pool =
  m_chunk_size :: usize
  m_chunks_per_block :: usize
  m_max_blocks :: usize
  m_current_block_index :: usize
  m_blocks :: addr
  m_alloc :: addr

text \<open>
  The constructor: it stores its arguments, asks \<^verbatim>\<open>calloc\<close> for the block table and
  keeps whatever pointer comes back. It has no failing path; the result type is that
  of the other operations.
\<close>

definition PoolAllocator :: "usize \<Rightarrow> usize \<Rightarrow> usize \<Rightarrow> heap \<Rightarrow> addr \<Rightarrow> fault + (pool \<times> heap)" where
  "PoolAllocator elem_size chunks_per_block max_blocks h r =
     Inr (\<lparr>m_chunk_size = elem_size,
           m_chunks_per_block = chunks_per_block,
           m_max_blocks = max_blocks,
           m_current_block_index = 0,
           m_blocks = r,
           m_alloc = 0\<rparr>,
          std_calloc h max_blocks 8 r)"

text \<open>
  The chaining loop of \<^verbatim>\<open>_allocate_block\<close>:
  \<^verbatim>\<open>for (usize i = 0; i < m_chunks_per_block - 1; ++i) { chunk->next = (char* )chunk + m_chunk_size; chunk = chunk->next; }\<close>
  It returns the final value of \<^verbatim>\<open>chunk\<close>.
\<close>

function chain_chunks :: "usize \<Rightarrow> usize \<Rightarrow> usize \<Rightarrow> addr \<Rightarrow> heap \<Rightarrow> fault + (addr \<times> heap)" where
  "chain_chunks i bound chunk_size chunk h =
     (if i < bound then
        (case store_ptr h chunk (chunk + chunk_size) of
           Inl e \<Rightarrow> Inl e
         | Inr h1 \<Rightarrow>
             (case load_ptr h1 chunk of
                Inl e \<Rightarrow> Inl e
              | Inr nxt \<Rightarrow> chain_chunks (i + 1) bound chunk_size nxt h1))
      else Inr (chunk, h))"
  by pat_completeness auto
termination
proof (relation "measure (\<lambda>(i, bound, chunk_size, chunk, h). unat bound - unat i)")
  show "wf (measure (\<lambda>(i, bound, chunk_size, chunk, h). unat bound - unat i))" by simp
next
  fix i bound chunk_size :: usize and chunk :: addr and h x2 :: heap and x2a :: addr
  assume lt: "i < bound"
  have b: "unat bound < 2 ^ 64" using unsigned_less[of bound] by simp
  have "unat i < unat bound" using lt by (simp add: word_less_nat_alt)
  moreover have "unat (i + 1) = unat i + 1"
  proof -
    have "unat i + unat (1 :: usize) < 2 ^ LENGTH(64)" using \<open>unat i < unat bound\<close> b by simp
    then show ?thesis by (simp only: unat_add_lem) simp
  qed
  ultimately show "((i + 1, bound, chunk_size, x2a, x2), (i, bound, chunk_size, chunk, h))
      \<in> measure (\<lambda>(i, bound, chunk_size, chunk, h). unat bound - unat i)"
    by simp
qed

declare chain_chunks.simps [simp del]

text \<open>\<^verbatim>\<open>_allocate_block\<close>; \<open>r\<close> is the answer of \<^verbatim>\<open>std::malloc(block_size)\<close>.\<close>

definition allocate_block :: "pool \<Rightarrow> heap \<Rightarrow> addr \<Rightarrow> fault + (addr \<times> pool \<times> heap)" where
  "allocate_block s h r =
     (if m_current_block_index s \<ge> m_max_blocks s then Inr (0, s, h)
      else
        let block_size = m_chunks_per_block s * m_chunk_size s;
            h1 = std_malloc h block_size r;
            block_begin = r
        in if block_begin = 0 then Inr (0, s, h1)
           else
             (case store_ptr h1 (m_blocks s + 8 * m_current_block_index s) block_begin of
                Inl e \<Rightarrow> Inl e
              | Inr h2 \<Rightarrow>
                  let s1 = s\<lparr>m_current_block_index := m_current_block_index s + 1\<rparr> in
                  (case chain_chunks 0 (m_chunks_per_block s1 - 1) (m_chunk_size s1) block_begin h2 of
                     Inl e \<Rightarrow> Inl e
                   | Inr (chunk, h3) \<Rightarrow>
                       (case store_ptr h3 chunk 0 of
                          Inl e \<Rightarrow> Inl e
                        | Inr h4 \<Rightarrow> Inr (block_begin, s1, h4)))))"

text \<open>
  The first statement of \<^verbatim>\<open>allocate\<close>:
  \<^verbatim>\<open>if (m_alloc == nullptr) { m_alloc = _allocate_block(); }\<close>
\<close>

definition allocate_refill :: "pool \<Rightarrow> heap \<Rightarrow> addr \<Rightarrow> fault + (pool \<times> heap)" where
  "allocate_refill s h r =
     (if m_alloc s = 0 then
        (case allocate_block s h r of
           Inl e \<Rightarrow> Inl e
         | Inr (b, s1, h1) \<Rightarrow> Inr (s1\<lparr>m_alloc := b\<rparr>, h1))
      else Inr (s, h))"

text \<open>
  \<^verbatim>\<open>allocate\<close>: refill, then \<^verbatim>\<open>free_chunk = m_alloc; m_alloc = m_alloc->next; return free_chunk\<close>.
  The source reads \<^verbatim>\<open>m_alloc->next\<close> without testing \<^verbatim>\<open>m_alloc\<close>.
\<close>

definition allocate :: "pool \<Rightarrow> heap \<Rightarrow> addr \<Rightarrow> fault + (addr \<times> pool \<times> heap)" where
  "allocate s h r =
     (case allocate_refill s h r of
        Inl e \<Rightarrow> Inl e
      | Inr (s1, h1) \<Rightarrow>
          let free_chunk = m_alloc s1 in
          (case load_ptr h1 (m_alloc s1) of
             Inl e \<Rightarrow> Inl e
           | Inr nxt \<Rightarrow> Inr (free_chunk, s1\<lparr>m_alloc := nxt\<rparr>, h1)))"

text \<open>
  \<^verbatim>\<open>deallocate\<close>: \<^verbatim>\<open>chunk->next = m_alloc; m_alloc = chunk\<close>. Here the data members are the
  record \<open>s\<close>, kept beside the byte store, which is how the operations see them as long
  as \<open>chunk\<close> does not point into the allocator object itself; \<open>deallocate_this\<close> below is
  the same function with the object in memory.
\<close>

definition deallocate :: "pool \<Rightarrow> heap \<Rightarrow> addr \<Rightarrow> fault + (pool \<times> heap)" where
  "deallocate s h chunk =
     (case store_ptr h chunk (m_alloc s) of
        Inl e \<Rightarrow> Inl e
      | Inr h1 \<Rightarrow> Inr (s\<lparr>m_alloc := chunk\<rparr>, h1))"

text \<open>The accessors.\<close>

definition chunk_size :: "pool \<Rightarrow> usize" where
  "chunk_size s = m_chunk_size s"

definition max_blocks :: "pool \<Rightarrow> usize" where
  "max_blocks s = m_max_blocks s"

definition chunks_per_block :: "pool \<Rightarrow> usize" where
  "chunks_per_block s = m_chunks_per_block s"

text \<open>
  The destructor: \<^verbatim>\<open>for (usize i = 0; i < m_current_block_index; ++i) std::free(m_blocks[i]);\<close>
  then \<^verbatim>\<open>std::free(m_blocks)\<close>.
\<close>

function free_blocks :: "usize \<Rightarrow> pool \<Rightarrow> heap \<Rightarrow> fault + heap" where
  "free_blocks i s h =
     (if i < m_current_block_index s then
        (case load_ptr h (m_blocks s + 8 * i) of
           Inl e \<Rightarrow> Inl e
         | Inr b \<Rightarrow>
             (case std_free h b of
                Inl e \<Rightarrow> Inl e
              | Inr h1 \<Rightarrow> free_blocks (i + 1) s h1))
      else Inr h)"
  by pat_completeness auto
termination
proof (relation "measure (\<lambda>(i, s, h). unat (m_current_block_index s) - unat i)")
  show "wf (measure (\<lambda>(i, s, h). unat (m_current_block_index s) - unat i))" by simp
next
  fix i :: usize and s :: pool and h x2a :: heap and x2 :: addr
  assume lt: "i < m_current_block_index s"
  have b: "unat (m_current_block_index s) < 2 ^ 64"
    using unsigned_less[of "m_current_block_index s"] by simp
  have "unat i < unat (m_current_block_index s)" using lt by (simp add: word_less_nat_alt)
  moreover have "unat (i + 1) = unat i + 1"
  proof -
    have "unat i + unat (1 :: usize) < 2 ^ LENGTH(64)"
      using \<open>unat i < unat (m_current_block_index s)\<close> b by simp
    then show ?thesis by (simp only: unat_add_lem) simp
  qed
  ultimately show "((i + 1, s, x2a), (i, s, h))
      \<in> measure (\<lambda>(i, s, h). unat (m_current_block_index s) - unat i)"
    by simp
qed

declare free_blocks.simps [simp del]

definition destroy :: "pool \<Rightarrow> heap \<Rightarrow> fault + heap" where
  "destroy s h =
     (case free_blocks 0 s h of
        Inl e \<Rightarrow> Inl e
      | Inr h1 \<Rightarrow> std_free h1 (m_blocks s))"

subsection \<open>The allocator object in memory\<close>

text \<open>
  A \<^verbatim>\<open>PoolAllocator<T>\<close> is itself an object in memory, so a pointer can address its
  data members. On the modelled platform each of the six members takes eight bytes and
  they lie in declaration order (lines 206 to 221 of \<^verbatim>\<open>lpool.hpp\<close>), 48 bytes in all;
  \<open>field_m_alloc this\<close> is \<^verbatim>\<open>&this->m_alloc\<close>, and so on. \<open>load_pool\<close> reads the members
  of the object at \<open>this\<close>, \<open>store_pool\<close> writes them.
\<close>

definition field_m_chunk_size :: "addr \<Rightarrow> addr" where
  "field_m_chunk_size this = this"

definition field_m_chunks_per_block :: "addr \<Rightarrow> addr" where
  "field_m_chunks_per_block this = this + 8"

definition field_m_max_blocks :: "addr \<Rightarrow> addr" where
  "field_m_max_blocks this = this + 16"

definition field_m_current_block_index :: "addr \<Rightarrow> addr" where
  "field_m_current_block_index this = this + 24"

definition field_m_blocks :: "addr \<Rightarrow> addr" where
  "field_m_blocks this = this + 32"

definition field_m_alloc :: "addr \<Rightarrow> addr" where
  "field_m_alloc this = this + 40"

definition load_pool :: "heap \<Rightarrow> addr \<Rightarrow> fault + pool" where
  "load_pool h this =
     (case load_ptr h (field_m_chunk_size this) of Inl e \<Rightarrow> Inl e | Inr cs \<Rightarrow>
      case load_ptr h (field_m_chunks_per_block this) of Inl e \<Rightarrow> Inl e | Inr cpb \<Rightarrow>
      case load_ptr h (field_m_max_blocks this) of Inl e \<Rightarrow> Inl e | Inr mb \<Rightarrow>
      case load_ptr h (field_m_current_block_index this) of Inl e \<Rightarrow> Inl e | Inr idx \<Rightarrow>
      case load_ptr h (field_m_blocks this) of Inl e \<Rightarrow> Inl e | Inr tbl \<Rightarrow>
      case load_ptr h (field_m_alloc this) of Inl e \<Rightarrow> Inl e | Inr head \<Rightarrow>
        Inr \<lparr>m_chunk_size = cs, m_chunks_per_block = cpb, m_max_blocks = mb,
             m_current_block_index = idx, m_blocks = tbl, m_alloc = head\<rparr>)"

definition store_pool :: "heap \<Rightarrow> addr \<Rightarrow> pool \<Rightarrow> fault + heap" where
  "store_pool h this s =
     (case store_ptr h (field_m_chunk_size this) (m_chunk_size s) of Inl e \<Rightarrow> Inl e | Inr h1 \<Rightarrow>
      case store_ptr h1 (field_m_chunks_per_block this) (m_chunks_per_block s) of Inl e \<Rightarrow> Inl e | Inr h2 \<Rightarrow>
      case store_ptr h2 (field_m_max_blocks this) (m_max_blocks s) of Inl e \<Rightarrow> Inl e | Inr h3 \<Rightarrow>
      case store_ptr h3 (field_m_current_block_index this) (m_current_block_index s) of Inl e \<Rightarrow> Inl e | Inr h4 \<Rightarrow>
      case store_ptr h4 (field_m_blocks this) (m_blocks s) of Inl e \<Rightarrow> Inl e | Inr h5 \<Rightarrow>
        store_ptr h5 (field_m_alloc this) (m_alloc s))"

text \<open>
  \<^verbatim>\<open>deallocate\<close> on the object at \<open>this\<close>: \<^verbatim>\<open>chunk->next = m_alloc\<close> reads the member
  \<^verbatim>\<open>this->m_alloc\<close> and stores it through \<open>chunk\<close>; \<^verbatim>\<open>m_alloc = chunk\<close> then stores the
  argument into the member. Both stores go to the one byte store, so the first can
  hit a member of the object when \<open>chunk\<close> points into it.
\<close>

definition deallocate_this :: "addr \<Rightarrow> heap \<Rightarrow> addr \<Rightarrow> fault + heap" where
  "deallocate_this this h chunk =
     (case load_ptr h (field_m_alloc this) of
        Inl e \<Rightarrow> Inl e
      | Inr head \<Rightarrow>
          (case store_ptr h chunk head of
             Inl e \<Rightarrow> Inl e
           | Inr h1 \<Rightarrow> store_ptr h1 (field_m_alloc this) chunk))"

section \<open>Call sequences\<close>

text \<open>A sequence of calls on one pool; it stops at the first fault. The argument of
  \<open>Allocate\<close> is the answer \<^verbatim>\<open>malloc\<close> gives if the call asks for a block.\<close>

datatype op = Allocate addr | Deallocate addr

fun run :: "pool \<Rightarrow> heap \<Rightarrow> op list \<Rightarrow> fault + (pool \<times> heap)" where
  "run s h [] = Inr (s, h)"
| "run s h (Allocate r # ops) =
     (case allocate s h r of Inl e \<Rightarrow> Inl e | Inr (p, s1, h1) \<Rightarrow> run s1 h1 ops)"
| "run s h (Deallocate p # ops) =
     (case deallocate s h p of Inl e \<Rightarrow> Inl e | Inr (s1, h1) \<Rightarrow> run s1 h1 ops)"

text \<open>
  A call sequence with its obligations checked: whenever \<^verbatim>\<open>allocate\<close> calls \<^verbatim>\<open>malloc\<close>
  (empty free list, block count below the ceiling) the answer is null or a fresh
  block of the requested size, and every \<^verbatim>\<open>deallocate\<close> is given a chunk that is
  outstanding. \<open>None\<close> marks a sequence that breaks an obligation; the third component
  lists the outstanding chunks, latest first.
\<close>

fun run_checked :: "pool \<Rightarrow> heap \<Rightarrow> addr list \<Rightarrow> op list \<Rightarrow> (fault + (pool \<times> heap \<times> addr list)) option" where
  "run_checked s h out [] = Some (Inr (s, h, out))"
| "run_checked s h out (Allocate r # ops) =
     (if m_alloc s = 0 \<and> m_current_block_index s < m_max_blocks s \<and>
         \<not> (r = 0 \<or> fresh h r (unat (m_chunks_per_block s * m_chunk_size s)))
      then None
      else case allocate s h r of
             Inl e \<Rightarrow> Some (Inl e)
           | Inr (p, s1, h1) \<Rightarrow> run_checked s1 h1 (p # out) ops)"
| "run_checked s h out (Deallocate p # ops) =
     (if p \<notin> set out then None
      else case deallocate s h p of
             Inl e \<Rightarrow> Some (Inl e)
           | Inr (s1, h1) \<Rightarrow> run_checked s1 h1 (remove1 p out) ops)"

section \<open>Predicates of the statements\<close>

text \<open>\<open>apart p q\<close>: the pointer-sized fields at \<open>p\<close> and at \<open>q\<close> share no byte.\<close>

definition apart :: "addr \<Rightarrow> addr \<Rightarrow> bool" where
  "apart p q = (8 \<le> unat (q - p) \<and> 8 \<le> unat (p - q))"

text \<open>
  \<open>table_entry m t i\<close> is the pointer stored in \<^verbatim>\<open>m_blocks[i]\<close> for a table at \<open>t\<close>;
  \<open>recorded_blocks\<close> lists the entries below \<open>m_current_block_index\<close>.
\<close>

definition table_entry :: "(addr \<Rightarrow> byte) \<Rightarrow> addr \<Rightarrow> nat \<Rightarrow> addr" where
  "table_entry m t i = word_of_bytes (read_bytes m (t + 8 * of_nat i) 8)"

definition recorded_blocks :: "pool \<Rightarrow> heap \<Rightarrow> addr list" where
  "recorded_blocks s h =
     map (table_entry (bytes h) (m_blocks s)) [0..<unat (m_current_block_index s)]"

text \<open>
  \<open>free_list h p as\<close>: following the \<^verbatim>\<open>next\<close> links from \<open>p\<close> visits exactly the chunks \<open>as\<close>
  and ends in the null pointer.
\<close>

fun free_list :: "heap \<Rightarrow> addr \<Rightarrow> addr list \<Rightarrow> bool" where
  "free_list h p [] = (p = 0)"
| "free_list h p (a # as) =
     (p = a \<and> a \<noteq> 0 \<and> (case load_ptr h a of Inl e \<Rightarrow> False | Inr q \<Rightarrow> free_list h q as))"

text \<open>
  \<open>separated cs xs\<close>: the chunks of \<open>cs\<close> bytes at the addresses \<open>xs\<close> are pairwise
  disjoint.
\<close>

definition separated :: "usize \<Rightarrow> addr list \<Rightarrow> bool" where
  "separated cs xs =
     (distinct xs \<and>
      (\<forall>p\<in>set xs. \<forall>q\<in>set xs. p \<noteq> q \<longrightarrow> unat p + unat cs \<le> unat q \<or> unat q + unat cs \<le> unat p))"

text \<open>
  \<open>table_ok s h cs\<close>: the block table is a live allocation of \<open>m_max_blocks\<close> entries, the
  entries in use are bases of distinct live allocations other than the table, and no
  chunk of \<open>cs\<close> overlaps the table.
\<close>

definition table_ok :: "pool \<Rightarrow> heap \<Rightarrow> addr list \<Rightarrow> bool" where
  "table_ok s h cs =
     ((m_blocks s, unat (m_max_blocks s) * 8) \<in> set (regions h) \<and>
      unat (m_current_block_index s) \<le> unat (m_max_blocks s) \<and>
      distinct (recorded_blocks s h @ [m_blocks s]) \<and>
      set (recorded_blocks s h) \<subseteq> fst ` set (regions h) \<and>
      (\<forall>c\<in>set cs. unat c + unat (m_chunk_size s) \<le> unat (m_blocks s) \<or>
                    unat (m_blocks s) + unat (m_max_blocks s) * 8 \<le> unat c))"

text \<open>
  The invariant of a pool in use, for the list \<open>out\<close> of chunks handed out and not yet
  returned: the free list is a null-terminated chain, the free and the outstanding
  chunks are non-null, live and pairwise disjoint, and the block table is intact.
\<close>

definition pool_inv :: "pool \<Rightarrow> heap \<Rightarrow> addr list \<Rightarrow> bool" where
  "pool_inv s h out =
     (8 \<le> unat (m_chunk_size s) \<and> 1 \<le> unat (m_chunks_per_block s) \<and>
      unat (m_chunks_per_block s) * unat (m_chunk_size s) < 2 ^ 64 \<and>
      m_blocks s \<noteq> 0 \<and> accessible h (m_blocks s) (8 * unat (m_max_blocks s)) \<and>
      (\<exists>fl. free_list h (m_alloc s) fl \<and> separated (m_chunk_size s) (fl @ out) \<and>
            (\<forall>c\<in>set (fl @ out). c \<noteq> 0 \<and> accessible h c (unat (m_chunk_size s))) \<and>
            table_ok s h (fl @ out)))"

text \<open>
  \<open>writable h a\<close>: a pointer-sized store at \<open>a\<close> is defined, that is, \<open>a\<close> is not null
  and the eight bytes at \<open>a\<close> are live. \<open>chunk_at r cs j\<close> is the address the chaining
  loop of \<^verbatim>\<open>_allocate_block\<close> writes in round \<open>j\<close>, for a block at \<open>r\<close>.
\<close>

definition writable :: "heap \<Rightarrow> addr \<Rightarrow> bool" where
  "writable h a = (a \<noteq> 0 \<and> accessible h a 8)"

definition chunk_at :: "addr \<Rightarrow> usize \<Rightarrow> nat \<Rightarrow> addr" where
  "chunk_at r cs j = r + of_nat j * cs"

text \<open>The addresses of the data members of the object at \<open>this\<close> other than \<^verbatim>\<open>m_alloc\<close>.\<close>

definition other_fields :: "addr \<Rightarrow> addr list" where
  "other_fields this =
     [field_m_chunk_size this, field_m_chunks_per_block this, field_m_max_blocks this,
      field_m_current_block_index this, field_m_blocks this]"

section \<open>Concrete pools\<close>

text \<open>
  The states used to evaluate the operations: the heap with no allocation, the pools
  \<^verbatim>\<open>PoolAllocator<Item>(2, 1)\<close> and \<^verbatim>\<open>PoolAllocator<Item>(1, 1)\<close> (\<^verbatim>\<open>sizeof(Item) = 16\<close>)
  with the block table at \<open>0x1000\<close>, a pool whose only block is in use, and the states
  reached from them.
\<close>

definition empty_heap :: heap where
  "empty_heap = \<lparr>bytes = (\<lambda>_. 0), regions = [], free_calls = []\<rparr>"

definition demo_heap :: heap where
  "demo_heap = \<lparr>bytes = (\<lambda>_. 0), regions = [(0x1000, 8)], free_calls = []\<rparr>"

definition demo_pool :: pool where
  "demo_pool = \<lparr>m_chunk_size = 16, m_chunks_per_block = 2, m_max_blocks = 1,
                 m_current_block_index = 0, m_blocks = 0x1000, m_alloc = 0\<rparr>"

definition one_chunk_pool :: pool where
  "one_chunk_pool = \<lparr>m_chunk_size = 16, m_chunks_per_block = 1, m_max_blocks = 1,
                     m_current_block_index = 0, m_blocks = 0x1000, m_alloc = 0\<rparr>"

definition full_pool :: pool where
  "full_pool = \<lparr>m_chunk_size = 16, m_chunks_per_block = 1, m_max_blocks = 1,
                 m_current_block_index = 1, m_blocks = 0x1000, m_alloc = 0\<rparr>"

definition demo_state1 :: "addr \<times> pool \<times> heap" where
  "demo_state1 = (case allocate demo_pool demo_heap 0x2000 of
       Inr x \<Rightarrow> x | Inl e \<Rightarrow> (0, demo_pool, demo_heap))"

definition demo_state3 :: "pool \<times> heap" where
  "demo_state3 = (case run demo_pool demo_heap [Allocate 0x2000, Allocate 0, Deallocate 0x2000, Allocate 0] of
       Inr x \<Rightarrow> x | Inl e \<Rightarrow> (demo_pool, demo_heap))"

definition demo_state4 :: "pool \<times> heap" where
  "demo_state4 = (case run (fst (snd demo_state1)) (snd (snd demo_state1)) [Allocate 0] of
       Inr x \<Rightarrow> x | Inl e \<Rightarrow> snd demo_state1)"

definition one_chunk_state1 :: "addr \<times> pool \<times> heap" where
  "one_chunk_state1 = (case allocate one_chunk_pool demo_heap 0x2000 of
       Inr x \<Rightarrow> x | Inl e \<Rightarrow> (0, one_chunk_pool, demo_heap))"

text \<open>
  \<open>slack_heap\<close> has 32 live bytes at \<open>0x2000\<close> before any pool exists. \<open>object_heap\<close> is
  the heap of \<open>demo_state1\<close> with the allocator object itself at \<open>0x3000\<close>, holding the
  members of that state; the other two are reached from it by \<^verbatim>\<open>deallocate\<close> with the
  address of the block table and with the address of \<^verbatim>\<open>m_current_block_index\<close>.
\<close>

definition slack_heap :: heap where
  "slack_heap = \<lparr>bytes = (\<lambda>_. 0), regions = [(0x2000, 32)], free_calls = []\<rparr>"

definition object_heap :: heap where
  "object_heap =
     (let h = snd (snd demo_state1); h1 = h\<lparr>regions := (0x3000, 48) # regions h\<rparr>
      in case store_pool h1 0x3000 (fst (snd demo_state1)) of Inr h2 \<Rightarrow> h2 | Inl e \<Rightarrow> h1)"

definition object_heap_table :: heap where
  "object_heap_table = (case deallocate_this 0x3000 object_heap 0x1000 of
       Inr h \<Rightarrow> h | Inl e \<Rightarrow> object_heap)"

definition object_heap_count :: heap where
  "object_heap_count = (case deallocate_this 0x3000 object_heap 0x3018 of
       Inr h \<Rightarrow> h | Inl e \<Rightarrow> object_heap)"

section \<open>Lemmas\<close>

subsection \<open>Evaluation\<close>

lemma read_bytes_numeral:
  "read_bytes m a (numeral k) = m a # read_bytes m (a + 1) (pred_numeral k)"
  by (simp add: numeral_eq_Suc)

lemma bytes_of_word_numeral:
  "bytes_of_word (numeral k) w = ucast w # bytes_of_word (pred_numeral k) (drop_bit 8 w)"
  by (simp add: numeral_eq_Suc)

lemmas eval_defs = empty_heap_def PoolAllocator_def allocate_def allocate_refill_def allocate_block_def
  deallocate_def load_ptr_def store_ptr_def accessible_def std_malloc_def std_calloc_def std_free_def
  zero_fill_def fresh_def read_bytes_numeral bytes_of_word_numeral Let_def chain_chunks.simps
  free_blocks.simps destroy_def chunk_size_def max_blocks_def chunks_per_block_def
  field_m_chunk_size_def field_m_chunks_per_block_def field_m_max_blocks_def
  field_m_current_block_index_def field_m_blocks_def field_m_alloc_def load_pool_def store_pool_def
  deallocate_this_def

lemma demo_construct: "PoolAllocator 16 2 1 empty_heap 0x1000 = Inr (demo_pool, demo_heap)"
  by (simp add: eval_defs demo_pool_def demo_heap_def)

subsection \<open>Words\<close>

lemma unat_lt64: "unat (w :: 64 word) < 2 ^ 64"
  using unsigned_less[of w] by simp

lemma unat_lt8: "unat (w :: 8 word) < 256"
  using unsigned_less[of w] by simp

lemma unat_of_nat64: "i < 2 ^ 64 \<Longrightarrow> unat (of_nat i :: addr) = i"
  by (simp add: unat_of_nat take_bit_nat_eq_self)

lemma unat_plus_of_nat:
  assumes "unat (a :: addr) + i < 2 ^ 64" shows "unat (a + of_nat i) = unat a + i"
proof -
  have i: "i < 2 ^ 64" using assms by simp
  have "unat a + unat (of_nat i :: addr) < 2 ^ LENGTH(64)" using assms i by (simp add: unat_of_nat64)
  then have "unat (a + of_nat i) = unat a + unat (of_nat i :: addr)" by (simp only: unat_add_lem)
  then show ?thesis using i by (simp add: unat_of_nat64)
qed

lemma unat_add_cases:
  "unat ((a :: addr) + b) = (if unat a + unat b < 2 ^ 64 then unat a + unat b else unat a + unat b - 2 ^ 64)"
proof -
  have "unat (a + b) = (unat a + unat b) mod 2 ^ 64" by (simp add: unat_word_ariths)
  moreover have "unat a < 2 ^ 64" "unat b < 2 ^ 64" by (rule unat_lt64)+
  ultimately show ?thesis by (simp add: mod_if)
qed

lemma unat_sub_cases:
  "unat ((a :: addr) - b) = (if unat b \<le> unat a then unat a - unat b else unat a + 2 ^ 64 - unat b)"
  using unat_sub_if_size[of a b] by (simp add: word_size)

lemma unat_chunk:
  assumes "unat (a :: addr) + j * unat (cs :: usize) < 2 ^ 64"
  shows "unat (a + of_nat j * cs) = unat a + j * unat cs"
proof -
  have "of_nat j * cs = (of_nat (j * unat cs) :: addr)" by simp
  then show ?thesis using unat_plus_of_nat[OF assms] by simp
qed

lemma unat_byte_offset:
  assumes "unat (a :: addr) + 8 \<le> 2 ^ 64" "i < 8"
  shows "unat (a + of_nat i) = unat a + i"
  using assms by (intro unat_plus_of_nat) simp

lemma unat_succ:
  assumes "i < (n :: usize)" shows "unat (i + 1) = Suc (unat i)"
proof -
  have "unat i < unat n" using assms by (simp add: word_less_nat_alt)
  then have "unat i + unat (1 :: usize) < 2 ^ LENGTH(64)" using unat_lt64[of n] by simp
  then show ?thesis by (simp only: unat_add_lem) simp
qed

subsection \<open>Bytes\<close>

lemma length_bytes_of_word: "length (bytes_of_word n w) = n"
  by (induction n arbitrary: w) auto

lemma nat_of_bytes_bound:
  "foldr (\<lambda>b acc. unat (b::byte) + 256 * acc) bs (0::nat) < 256 ^ length bs"
proof (induction bs)
  case Nil show ?case by simp
next
  case (Cons b bs)
  have "unat b < 256" by (rule unat_lt8)
  with Cons show ?case by simp
qed

lemma word_of_bytes_of_nat:
  "word_of_bytes bs = of_nat (foldr (\<lambda>b acc. unat b + 256 * acc) bs 0)"
  by (induction bs) simp_all

lemma unat_word_of_bytes:
  assumes "length bs \<le> 8"
  shows "unat (word_of_bytes bs) = foldr (\<lambda>b acc. unat b + 256 * acc) bs 0"
proof -
  have "foldr (\<lambda>b acc. unat (b::byte) + 256 * acc) bs (0::nat) < 256 ^ length bs"
    by (rule nat_of_bytes_bound)
  also have "(256::nat) ^ length bs \<le> 256 ^ 8" using assms by (intro power_increasing) simp_all
  finally have "foldr (\<lambda>b acc. unat (b::byte) + 256 * acc) bs (0::nat) < 2 ^ 64" by simp
  then show ?thesis by (simp add: word_of_bytes_of_nat unat_of_nat64)
qed

lemma nat_bytes_roundtrip:
  "foldr (\<lambda>b acc. unat b + 256 * acc) (bytes_of_word n w) 0 = unat w mod 256 ^ n"
proof (induction n arbitrary: w)
  case 0 show ?case by simp
next
  case (Suc n)
  have a: "unat (ucast w :: byte) = unat w mod 256" by (simp add: unsigned_ucast_eq take_bit_eq_mod)
  have b: "unat (drop_bit 8 w) = unat w div 256" by (simp only: unat_drop_bit_eq) (simp add: drop_bit_eq_div)
  have "foldr (\<lambda>b acc. unat b + 256 * acc) (bytes_of_word (Suc n) w) 0
        = unat w mod 256 + 256 * (unat w div 256 mod 256 ^ n)"
    using Suc[of "drop_bit 8 w"] by (simp only: bytes_of_word.simps foldr.simps comp_apply a b)
  also have "\<dots> = unat w mod (256 * 256 ^ n)"
    by (simp only: mod_mult2_eq[of "unat w" 256 "256 ^ n"] add.commute)
  finally show ?case by (simp only: power_Suc)
qed

lemma word_of_bytes_roundtrip: "word_of_bytes (bytes_of_word 8 w) = w"
proof -
  have "unat (word_of_bytes (bytes_of_word 8 w)) = unat w mod 256 ^ 8"
    by (simp add: unat_word_of_bytes length_bytes_of_word nat_bytes_roundtrip)
  also have "\<dots> = unat w" using unat_lt64[of w] by simp
  finally show ?thesis by (simp add: word_unat_eq_iff)
qed

lemma write_bytes_other:
  "(\<And>i. i < length bs \<Longrightarrow> c \<noteq> a + of_nat i) \<Longrightarrow> write_bytes m a bs c = m c"
proof (induction bs arbitrary: m a)
  case Nil show ?case by simp
next
  case (Cons b bs)
  have "c \<noteq> a" using Cons.prems[of 0] by simp
  moreover have "write_bytes (m(a := b)) (a + 1) bs c = (m(a := b)) c"
  proof (rule Cons.IH)
    fix i assume "i < length bs"
    then show "c \<noteq> a + 1 + of_nat i" using Cons.prems[of "Suc i"] by (simp add: add.assoc)
  qed
  ultimately show ?case by simp
qed

lemma write_bytes_outside:
  assumes "\<not> unat (c - a) < length bs"
  shows "write_bytes m a bs c = m c"
proof (rule write_bytes_other)
  fix i assume i: "i < length bs"
  show "c \<noteq> a + of_nat i"
  proof
    assume "c = a + of_nat i"
    then have "unat (c - a) = i mod 2 ^ 64" by (simp add: unat_of_nat)
    also have "\<dots> \<le> i" by simp
    finally show False using i assms by simp
  qed
qed

lemma read_write_bytes:
  "length bs < 2 ^ 64 \<Longrightarrow> read_bytes (write_bytes m a bs) a (length bs) = bs"
proof (induction bs arbitrary: m a)
  case Nil show ?case by simp
next
  case (Cons b bs)
  have "write_bytes (m(a := b)) (a + 1) bs a = (m(a := b)) a"
  proof (rule write_bytes_outside)
    have "unat (a - (a + 1)) = unat (- 1 :: addr)" by simp
    also have "\<dots> = 2 ^ 64 - 1" by (simp add: unsigned_minus_1_eq_mask mask_eq_exp_minus_1)
    finally show "\<not> unat (a - (a + 1)) < length bs" using Cons.prems by simp
  qed
  then show ?case using Cons by simp
qed

lemma read_bytes_cong:
  "(\<And>i. i < n \<Longrightarrow> m (a + of_nat i) = m' (a + of_nat i)) \<Longrightarrow> read_bytes m a n = read_bytes m' a n"
proof (induction n arbitrary: a)
  case 0 show ?case by simp
next
  case (Suc n)
  have "m a = m' a" using Suc.prems[of 0] by simp
  moreover have "read_bytes m (a + 1) n = read_bytes m' (a + 1) n"
  proof (rule Suc.IH)
    fix i assume "i < n" then show "m (a + 1 + of_nat i) = m' (a + 1 + of_nat i)"
      using Suc.prems[of "Suc i"] by (simp add: add.assoc)
  qed
  ultimately show ?case by simp
qed

lemma read_bytes_zero:
  "(\<And>j. j < n \<Longrightarrow> m (a + of_nat j) = 0) \<Longrightarrow> read_bytes m a n = replicate n 0"
proof (induction n arbitrary: a)
  case 0
  show ?case by simp
next
  case (Suc n)
  have "m a = 0" using Suc.prems[of 0] by simp
  moreover have "read_bytes m (a + 1) n = replicate n 0"
  proof (rule Suc.IH)
    fix j assume "j < n"
    then show "m (a + 1 + of_nat j) = 0" using Suc.prems[of "Suc j"] by (simp add: add.assoc)
  qed
  ultimately show ?case by simp
qed

lemma word_of_bytes_zero: "word_of_bytes (replicate n 0) = 0"
  by (induction n) simp_all

subsection \<open>Loads and stores\<close>

lemma store_ptr_Inr_iff:
  "store_ptr h a v = Inr h' \<longleftrightarrow>
     a \<noteq> 0 \<and> accessible h a 8 \<and> h' = h\<lparr>bytes := write_bytes (bytes h) a (bytes_of_word 8 v)\<rparr>"
  by (auto simp: store_ptr_def)

lemma store_ptr_regions:
  "store_ptr h a v = Inr h' \<Longrightarrow> regions h' = regions h"
  by (simp add: store_ptr_Inr_iff)

lemma store_ptr_free_calls:
  "store_ptr h a v = Inr h' \<Longrightarrow> free_calls h' = free_calls h"
  by (simp add: store_ptr_Inr_iff)

lemma store_ptr_accessible:
  "store_ptr h a v = Inr h' \<Longrightarrow> accessible h' b n = accessible h b n"
  by (simp add: store_ptr_Inr_iff accessible_def)

lemma store_ptr_bytes_outside:
  "store_ptr h a v = Inr h' \<Longrightarrow> \<not> unat (c - a) < 8 \<Longrightarrow> bytes h' c = bytes h c"
  by (simp add: store_ptr_Inr_iff write_bytes_outside length_bytes_of_word)

lemma load_store_same:
  assumes "store_ptr h a v = Inr h'"
  shows "load_ptr h' a = Inr v"
proof -
  have "read_bytes (write_bytes (bytes h) a (bytes_of_word 8 v)) a (length (bytes_of_word 8 v))
        = bytes_of_word 8 v"
    by (rule read_write_bytes) (simp add: length_bytes_of_word)
  then have "read_bytes (bytes h') a 8 = bytes_of_word 8 v"
    using assms by (simp add: store_ptr_Inr_iff length_bytes_of_word)
  then show ?thesis
    using assms by (simp add: load_ptr_def store_ptr_Inr_iff accessible_def word_of_bytes_roundtrip)
qed

lemma load_store_other:
  assumes st: "store_ptr h a v = Inr h'"
    and apart: "\<And>i. i < 8 \<Longrightarrow> \<not> unat (b + of_nat i - a) < 8"
  shows "load_ptr h' b = load_ptr h b"
proof -
  have "read_bytes (bytes h') b 8 = read_bytes (bytes h) b 8"
  proof (rule read_bytes_cong)
    fix i :: nat assume "i < 8"
    then show "bytes h' (b + of_nat i) = bytes h (b + of_nat i)"
      using store_ptr_bytes_outside[OF st] apart by blast
  qed
  then show ?thesis using st by (simp add: load_ptr_def store_ptr_Inr_iff accessible_def)
qed

lemma load_ptr_Inr_iff:
  "load_ptr h a = Inr v \<longleftrightarrow> a \<noteq> 0 \<and> accessible h a 8 \<and> v = word_of_bytes (read_bytes (bytes h) a 8)"
  by (auto simp: load_ptr_def)

lemma load_ptr_cong:
  assumes "accessible h' a 8 = accessible h a 8"
    and "\<And>i. i < 8 \<Longrightarrow> bytes h' (a + of_nat i) = bytes h (a + of_nat i)"
  shows "load_ptr h' a = load_ptr h a"
proof -
  have "read_bytes (bytes h') a 8 = read_bytes (bytes h) a 8"
    by (rule read_bytes_cong) (rule assms(2))
  then show ?thesis using assms(1) by (simp add: load_ptr_def)
qed

lemma apart_offset:
  assumes "apart p q" "i < 8"
  shows "\<not> unat (q + of_nat i - p) < 8"
proof -
  have i: "unat (of_nat i :: addr) = i" using assms(2) by (simp add: unat_of_nat64)
  have p: "unat p < 2 ^ 64" and q: "unat q < 2 ^ 64" by (rule unat_lt64)+
  have a: "8 \<le> (if unat p \<le> unat q then unat q - unat p else unat q + 2 ^ 64 - unat p)"
    using assms(1) by (simp only: apart_def unat_sub_cases)
  have b: "8 \<le> (if unat q \<le> unat p then unat p - unat q else unat p + 2 ^ 64 - unat q)"
    using assms(1) by (simp only: apart_def unat_sub_cases)
  have qi: "unat (q + of_nat i) = (if unat q + i < 2 ^ 64 then unat q + i else unat q + i - 2 ^ 64)"
    by (simp only: unat_add_cases i)
  have "unat (q + of_nat i - p) =
     (if unat p \<le> unat (q + of_nat i) then unat (q + of_nat i) - unat p
      else unat (q + of_nat i) + 2 ^ 64 - unat p)"
    by (rule unat_sub_cases)
  then show ?thesis using a b qi p q assms(2) by (simp split: if_splits)
qed

lemma apartI:
  assumes "unat p + 8 \<le> 2 ^ 64" "unat q + 8 \<le> 2 ^ 64" "unat p + 8 \<le> unat q \<or> unat q + 8 \<le> unat p"
  shows "apart p q"
proof -
  have "unat p \<noteq> unat q" using assms(3) by auto
  then show ?thesis
    using assms unat_lt64[of p] unat_lt64[of q]
    by (simp only: apart_def unat_sub_cases) (auto split: if_splits)
qed

lemma apart_sym: "apart p q \<Longrightarrow> apart q p"
  by (simp add: apart_def)

lemma load_store_apart:
  assumes "store_ptr h a v = Inr h'" "apart a b"
  shows "load_ptr h' b = load_ptr h b"
  using assms(2) by (intro load_store_other[OF assms(1)] apart_offset)

lemma outside_offset:
  assumes "unat (a :: addr) + 8 \<le> 2 ^ 64" "unat b + n \<le> unat a \<or> unat a + 8 \<le> unat b" "i < 8"
  shows "\<not> (unat b \<le> unat (a + of_nat i) \<and> unat (a + of_nat i) < unat b + n)"
  using assms unat_byte_offset[OF assms(1,3)] by auto

subsection \<open>Live allocations\<close>

lemma accessible_regions_cong:
  "regions h' = regions h \<Longrightarrow> accessible h' a n = accessible h a n"
  by (simp add: accessible_def)

lemma accessibleI:
  assumes "(b, n) \<in> set (regions h)" "unat b \<le> unat a" "unat a + len \<le> unat b + n"
    "unat b + n \<le> 2 ^ 64"
  shows "accessible h a len"
  using assms by (auto simp: accessible_def list_ex_iff)

lemma accessibleE:
  assumes "accessible h a len"
  obtains b n where "(b, n) \<in> set (regions h)" "unat b \<le> unat a" "unat a + len \<le> unat b + n"
    "unat b + n \<le> 2 ^ 64"
  using assms by (auto simp: accessible_def list_ex_iff)

lemma accessible_mono:
  assumes "accessible h a n" "set (regions h) \<subseteq> set (regions h')"
  shows "accessible h' a n"
  using assms by (auto simp: accessible_def list_ex_iff)

lemma accessible_nowrap: "accessible h a n \<Longrightarrow> unat a + n \<le> 2 ^ 64"
  by (erule accessibleE) simp

lemma store_ptr_ok:
  assumes "a \<noteq> 0" "accessible h a 8"
  obtains h' where "store_ptr h a v = Inr h'"
  using assms by (simp add: store_ptr_def)

lemma fresh_small_inaccessible:
  assumes "fresh h r n" "n < 8"
  shows "\<not> accessible (h\<lparr>regions := (r, n) # regions h\<rparr>) r 8"
proof -
  have "\<not> (unat b \<le> unat r \<and> unat r + 8 \<le> unat b + m)" if "(b, m) \<in> set (regions h)" for b m
  proof -
    from assms(1) that have "r \<noteq> b" and d: "unat r + n \<le> unat b \<or> unat b + m \<le> unat r"
      by (auto simp: fresh_def list_all_iff)
    from \<open>r \<noteq> b\<close> have "unat r \<noteq> unat b" by (simp add: word_unat_eq_iff)
    with d show ?thesis by auto
  qed
  then show ?thesis using assms(2) by (auto simp: accessible_def list_ex_iff)
qed

lemma fresh_disjoint:
  assumes "fresh h r n" "accessible h a len" "0 < len"
  shows "unat r + n \<le> unat a \<or> unat a + len \<le> unat r"
proof -
  from assms(2) obtain b m where bm: "(b, m) \<in> set (regions h)" "unat b \<le> unat a"
    "unat a + len \<le> unat b + m" by (rule accessibleE)
  with assms(1) have "unat r + n \<le> unat b \<or> unat b + m \<le> unat r"
    by (auto simp: fresh_def list_all_iff)
  with bm show ?thesis by auto
qed

lemma last_chunk_inaccessible:
  assumes fr: "fresh h r n" and n: "n = Suc k * e" and e: "e < 8"
    and c: "unat c = unat r + k * e"
  shows "\<not> accessible (h\<lparr>regions := (r, n) # regions h\<rparr>) c 8"
proof -
  have new: "\<not> (unat r \<le> unat c \<and> unat c + 8 \<le> unat r + n)" using n e c by simp
  have old: "\<not> (unat b \<le> unat c \<and> unat c + 8 \<le> unat b + m)" if "(b, m) \<in> set (regions h)" for b m
  proof -
    from fr that have rb: "r \<noteq> b" and d: "unat r + n \<le> unat b \<or> unat b + m \<le> unat r"
      by (auto simp: fresh_def list_all_iff)
    from rb have ne: "unat r \<noteq> unat b" by (simp add: word_unat_eq_iff)
    show ?thesis
    proof
      assume a: "unat b \<le> unat c \<and> unat c + 8 \<le> unat b + m"
      from d show False
      proof
        assume "unat r + n \<le> unat b"
        with a c n have "k * e + e \<le> k * e" by simp
        then have "e = 0" by simp
        with a c \<open>unat r + n \<le> unat b\<close> n ne show False by simp
      next
        assume "unat b + m \<le> unat r"
        with a c show False by simp
      qed
    qed
  qed
  show ?thesis using new old by (auto simp: accessible_def list_ex_iff)
qed

lemma calloc_table_zero:
  assumes fr: "fresh h r (unat mb * 8)" and i: "i < unat (mb :: usize)"
  shows "load_ptr (std_calloc h mb 8 r) (r + 8 * of_nat i) = Inr 0"
proof -
  let ?h = "std_calloc h mb 8 r" and ?a = "r + 8 * of_nat i"
  from fr have r0: "r \<noteq> 0" and rn: "unat r + unat mb * 8 \<le> 2 ^ 64" by (simp_all add: fresh_def)
  have h: "?h = h\<lparr>bytes := zero_fill (bytes h) r (unat mb * 8), regions := (r, unat mb * 8) # regions h\<rparr>"
    using r0 by (simp add: std_calloc_def)
  have "unat (r + of_nat i * 8) = unat r + i * unat (8 :: usize)"
    using rn i by (intro unat_chunk) simp
  then have ua: "unat ?a = unat r + 8 * i" by (simp add: mult.commute)
  have a0: "?a \<noteq> 0"
  proof -
    have "0 < unat r" using r0 by (simp add: unat_gt_0)
    then have "0 < unat ?a" using ua by simp
    then show ?thesis by (simp add: unat_gt_0)
  qed
  have acc: "accessible ?h ?a 8"
    using ua i rn by (intro accessibleI[of r "unat mb * 8"]) (simp_all add: h)
  have a8: "unat ?a + 8 \<le> 2 ^ 64" using ua i rn by simp
  have "read_bytes (bytes ?h) ?a 8 = replicate 8 0"
  proof (rule read_bytes_zero)
    fix j :: nat assume j: "j < 8"
    have "unat (?a + of_nat j) = unat ?a + j" by (rule unat_byte_offset[OF a8 j])
    then show "bytes ?h (?a + of_nat j) = 0" using ua i j by (simp add: h zero_fill_def)
  qed
  then show ?thesis using a0 acc by (simp add: load_ptr_def word_of_bytes_zero)
qed

lemma table_slot:
  assumes "t \<noteq> 0" "accessible h t (8 * unat mb)" "i < (mb :: usize)"
  shows "unat (t + 8 * i) = unat t + 8 * unat i" "t + 8 * i \<noteq> 0" "accessible h (t + 8 * i) 8"
proof -
  from assms(2) obtain b m where bm: "(b, m) \<in> set (regions h)" "unat b \<le> unat t"
    "unat t + 8 * unat mb \<le> unat b + m" "unat b + m \<le> 2 ^ 64" by (rule accessibleE)
  have i: "unat i < unat mb" using assms(3) by (simp add: word_less_nat_alt)
  have "unat (t + of_nat (unat i) * 8) = unat t + unat i * unat (8 :: usize)"
    using bm i by (intro unat_chunk) simp
  then show u: "unat (t + 8 * i) = unat t + 8 * unat i" by (simp add: mult.commute)
  have "0 < unat t" using assms(1) by (simp add: unat_gt_0)
  then show "t + 8 * i \<noteq> 0" using u by (auto simp: unat_eq_0[symmetric])
  show "accessible h (t + 8 * i) 8"
    using bm i u by (intro accessibleI[of b m]) auto
qed

subsection \<open>Block growth\<close>

text \<open>The chaining loop, run for \<open>k\<close> more rounds from \<open>chunk\<close> inside one live block.\<close>

lemma chain_chunks_correct:
  assumes "unat bound = unat i + k"
    and "(B, N) \<in> set (regions h)" "unat B + N \<le> 2 ^ 64"
    and "0 < unat B" "unat B \<le> unat chunk"
    and "unat chunk + k * unat cs + 8 \<le> unat B + N"
    and "8 \<le> unat cs"
  shows "\<exists>h'. chain_chunks i bound cs chunk h = Inr (chunk + of_nat k * cs, h') \<and>
           regions h' = regions h \<and> free_calls h' = free_calls h \<and>
           (\<forall>j<k. load_ptr h' (chunk + of_nat j * cs) = Inr (chunk + of_nat (Suc j) * cs)) \<and>
           (\<forall>c. \<not> (unat chunk \<le> unat c \<and> unat c < unat chunk + k * unat cs) \<longrightarrow> bytes h' c = bytes h c)"
  using assms
proof (induction k arbitrary: i chunk h)
  case 0
  then have "\<not> i < bound" by (simp add: word_less_nat_alt)
  then show ?case by (subst chain_chunks.simps) simp
next
  case (Suc k)
  have lt: "i < bound" using Suc.prems(1) by (simp add: word_less_nat_alt)
  have i1: "unat (i + 1) = unat i + 1"
  proof -
    have "unat i + unat (1 :: usize) < 2 ^ LENGTH(64)"
      using Suc.prems(1) unat_lt64[of bound] by simp
    then show ?thesis by (simp only: unat_add_lem) simp
  qed
  have c0: "chunk \<noteq> 0" using Suc.prems(4,5) by (auto simp: unat_eq_0)
  have acc: "accessible h chunk 8"
    using Suc.prems(2,3,5,6) by (intro accessibleI[of B N]) auto
  obtain h1 where st: "store_ptr h chunk (chunk + cs) = Inr h1"
    using c0 acc by (rule store_ptr_ok)
  have ld: "load_ptr h1 chunk = Inr (chunk + cs)" by (rule load_store_same[OF st])
  have r1: "regions h1 = regions h" by (rule store_ptr_regions[OF st])
  have nx: "unat (chunk + cs) = unat chunk + unat cs"
  proof -
    have "unat chunk + unat cs < 2 ^ LENGTH(64)" using Suc.prems(3,6) by simp
    then show ?thesis by (simp only: unat_add_lem)
  qed
  have "\<exists>h'. chain_chunks (i + 1) bound cs (chunk + cs) h1 = Inr (chunk + cs + of_nat k * cs, h') \<and>
           regions h' = regions h1 \<and> free_calls h' = free_calls h1 \<and>
           (\<forall>j<k. load_ptr h' (chunk + cs + of_nat j * cs) = Inr (chunk + cs + of_nat (Suc j) * cs)) \<and>
           (\<forall>c. \<not> (unat (chunk + cs) \<le> unat c \<and> unat c < unat (chunk + cs) + k * unat cs) \<longrightarrow> bytes h' c = bytes h1 c)"
  proof (rule Suc.IH)
    show "unat bound = unat (i + 1) + k" using Suc.prems(1) i1 by simp
    show "(B, N) \<in> set (regions h1)" using Suc.prems(2) r1 by simp
    show "unat B + N \<le> 2 ^ 64" by (rule Suc.prems(3))
    show "0 < unat B" by (rule Suc.prems(4))
    show "unat B \<le> unat (chunk + cs)" using Suc.prems(5) nx by simp
    show "unat (chunk + cs) + k * unat cs + 8 \<le> unat B + N" using Suc.prems(6) nx by simp
    show "8 \<le> unat cs" by (rule Suc.prems(7))
  qed
  then obtain h' where
    ch: "chain_chunks (i + 1) bound cs (chunk + cs) h1 = Inr (chunk + cs + of_nat k * cs, h')"
    and r': "regions h' = regions h1" and f': "free_calls h' = free_calls h1"
    and links: "\<And>j. j < k \<Longrightarrow> load_ptr h' (chunk + cs + of_nat j * cs) = Inr (chunk + cs + of_nat (Suc j) * cs)"
    and frame: "\<And>c. \<not> (unat (chunk + cs) \<le> unat c \<and> unat c < unat (chunk + cs) + k * unat cs) \<Longrightarrow> bytes h' c = bytes h1 c"
    by blast
  have res: "chain_chunks i bound cs chunk h = Inr (chunk + of_nat (Suc k) * cs, h')"
    using lt st ld ch by (subst chain_chunks.simps) (simp add: algebra_simps)
  have c8: "unat chunk + 8 \<le> 2 ^ 64" using Suc.prems(3,6) by simp
  have first: "load_ptr h' chunk = Inr (chunk + cs)"
  proof -
    have "load_ptr h' chunk = load_ptr h1 chunk"
    proof (rule load_ptr_cong[OF accessible_regions_cong[OF r']])
      fix j :: nat assume j: "j < 8"
      have "unat (chunk + of_nat j) = unat chunk + j" by (rule unat_byte_offset[OF c8 j])
      then have "\<not> (unat (chunk + cs) \<le> unat (chunk + of_nat j))" using nx j Suc.prems(7) by simp
      then show "bytes h' (chunk + of_nat j) = bytes h1 (chunk + of_nat j)" by (intro frame) simp
    qed
    then show ?thesis using ld by simp
  qed
  have all_links: "load_ptr h' (chunk + of_nat j * cs) = Inr (chunk + of_nat (Suc j) * cs)" if "j < Suc k" for j
  proof (cases j)
    case 0
    then show ?thesis using first by simp
  next
    case (Suc j')
    then have "j' < k" using that by simp
    from links[OF this] show ?thesis by (simp add: Suc algebra_simps)
  qed
  have all_frame: "bytes h' c = bytes h c"
    if "\<not> (unat chunk \<le> unat c \<and> unat c < unat chunk + Suc k * unat cs)" for c
  proof -
    have "\<not> (unat (chunk + cs) \<le> unat c \<and> unat c < unat (chunk + cs) + k * unat cs)"
      using that nx by auto
    then have "bytes h' c = bytes h1 c" by (rule frame)
    moreover have "bytes h1 c = bytes h c"
    proof (rule store_ptr_bytes_outside[OF st])
      have "unat (c - chunk) = (if unat chunk \<le> unat c then unat c - unat chunk else unat c + 2 ^ 64 - unat chunk)"
        by (rule unat_sub_cases)
      then show "\<not> unat (c - chunk) < 8"
        using that Suc.prems(7) c8 unat_lt64[of c] by (auto split: if_splits)
    qed
    ultimately show ?thesis by simp
  qed
  show ?case
    using res r' r1 f' store_ptr_free_calls[OF st] all_links all_frame by auto
qed

lemma chain_chunks_regions:
  "chain_chunks i bound cs chunk h = Inr (c, h') \<Longrightarrow> regions h' = regions h"
proof (induction i bound cs chunk h rule: chain_chunks.induct)
  case (1 i bound cs chunk h)
  show ?case
  proof (cases "i < bound")
    case True
    with "1.prems" obtain h1 nxt where st: "store_ptr h chunk (chunk + cs) = Inr h1"
      and ld: "load_ptr h1 chunk = Inr nxt"
      and rec: "chain_chunks (i + 1) bound cs nxt h1 = Inr (c, h')"
      by (subst (asm) chain_chunks.simps) (auto split: sum.splits)
    from "1.IH"[OF True st ld rec] store_ptr_regions[OF st] show ?thesis by simp
  next
    case False
    with "1.prems" show ?thesis by (subst (asm) chain_chunks.simps) simp
  qed
qed

lemma chain_chunks_result:
  assumes "chain_chunks i bound cs chunk h = Inr (c, h')" "unat i \<le> unat bound"
  shows "c = chunk + of_nat (unat bound - unat i) * cs"
  using assms
proof (induction i bound cs chunk h rule: chain_chunks.induct)
  case (1 i bound cs chunk h)
  show ?case
  proof (cases "i < bound")
    case True
    with "1.prems"(1) obtain h1 nxt where st: "store_ptr h chunk (chunk + cs) = Inr h1"
      and ld: "load_ptr h1 chunk = Inr nxt"
      and rec: "chain_chunks (i + 1) bound cs nxt h1 = Inr (c, h')"
      by (subst (asm) chain_chunks.simps) (auto split: sum.splits)
    have nxt: "nxt = chunk + cs" using load_store_same[OF st] ld by simp
    have i1: "unat (i + 1) = Suc (unat i)" by (rule unat_succ[OF True])
    have lt: "unat i < unat bound" using True by (simp add: word_less_nat_alt)
    have "c = nxt + of_nat (unat bound - unat (i + 1)) * cs"
      using lt i1 by (intro "1.IH"[OF True st ld rec]) simp
    moreover have "unat bound - unat i = Suc (unat bound - unat (i + 1))" using lt i1 by simp
    ultimately show ?thesis by (simp add: nxt algebra_simps)
  next
    case False
    then have "unat bound - unat i = 0" by (simp add: word_less_nat_alt)
    with False "1.prems"(1) show ?thesis by (subst (asm) chain_chunks.simps) simp
  qed
qed

lemma allocate_block_grows:
  fixes s :: pool
  defines "slot \<equiv> m_blocks s + 8 * m_current_block_index s"
    and "n \<equiv> unat (m_chunks_per_block s) * unat (m_chunk_size s)"
    and "cs \<equiv> m_chunk_size s"
    and "k \<equiv> unat (m_chunks_per_block s) - 1"
  assumes idx: "m_current_block_index s < m_max_blocks s"
    and cpb: "1 \<le> unat (m_chunks_per_block s)"
    and cs8: "8 \<le> unat (m_chunk_size s)"
    and nov: "n < 2 ^ 64"
    and fr: "fresh h r n"
    and slot0: "slot \<noteq> 0" and slot_acc: "accessible h slot 8"
  shows "\<exists>h'. allocate_block s h r
            = Inr (r, s\<lparr>m_current_block_index := m_current_block_index s + 1\<rparr>, h') \<and>
         regions h' = (r, n) # regions h \<and> free_calls h' = free_calls h \<and>
         load_ptr h' slot = Inr r \<and>
         (\<forall>j<k. load_ptr h' (r + of_nat j * cs) = Inr (r + of_nat (Suc j) * cs)) \<and>
         load_ptr h' (r + of_nat k * cs) = Inr 0 \<and>
         (\<forall>c. \<not> unat (c - slot) < 8 \<and> \<not> (unat r \<le> unat c \<and> unat c < unat r + n)
              \<longrightarrow> bytes h' c = bytes h c)"
proof -
  have r0: "r \<noteq> 0" and rn: "unat r + n \<le> 2 ^ 64" using fr by (simp_all add: fresh_def)
  have rpos: "0 < unat r" using r0 by (simp add: unat_gt_0)
  have n_eq: "n = Suc k * unat cs" using cpb by (simp add: n_def k_def cs_def)
  have bs: "unat (m_chunks_per_block s * m_chunk_size s) = n"
    using nov unat_mult_lem[of "m_chunks_per_block s" "m_chunk_size s"] by (simp add: n_def)
  have cpb0: "m_chunks_per_block s \<noteq> 0" using cpb by (auto simp: unat_eq_0[symmetric])
  have bound: "unat (m_chunks_per_block s - 1) = unat (0 :: usize) + k"
    using unat_minus_one[OF cpb0] by (simp add: k_def)
  define h1 where "h1 = h\<lparr>regions := (r, n) # regions h\<rparr>"
  have m: "std_malloc h (m_chunks_per_block s * m_chunk_size s) r = h1"
    using r0 bs by (simp add: std_malloc_def h1_def)
  have acc1: "accessible h1 slot 8"
    by (rule accessible_mono[OF slot_acc]) (auto simp: h1_def)
  obtain h2 where st2: "store_ptr h1 slot r = Inr h2" using slot0 acc1 by (rule store_ptr_ok)
  have r2: "regions h2 = (r, n) # regions h" using store_ptr_regions[OF st2] by (simp add: h1_def)
  have in2: "(r, n) \<in> set (regions h2)" by (simp add: r2)
  have "\<exists>h'. chain_chunks 0 (m_chunks_per_block s - 1) cs r h2 = Inr (r + of_nat k * cs, h') \<and>
           regions h' = regions h2 \<and> free_calls h' = free_calls h2 \<and>
           (\<forall>j<k. load_ptr h' (r + of_nat j * cs) = Inr (r + of_nat (Suc j) * cs)) \<and>
           (\<forall>c. \<not> (unat r \<le> unat c \<and> unat c < unat r + k * unat cs) \<longrightarrow> bytes h' c = bytes h2 c)"
  proof (rule chain_chunks_correct[where B=r and N=n])
    show "unat (m_chunks_per_block s - 1) = unat (0 :: usize) + k" by (rule bound)
    show "(r, n) \<in> set (regions h2)" by (rule in2)
    show "unat r + n \<le> 2 ^ 64" by (rule rn)
    show "0 < unat r" by (rule rpos)
    show "unat r \<le> unat r" by simp
    show "unat r + k * unat cs + 8 \<le> unat r + n" using n_eq cs8 by (simp add: cs_def)
    show "8 \<le> unat cs" using cs8 by (simp add: cs_def)
  qed
  then obtain h3 where ch: "chain_chunks 0 (m_chunks_per_block s - 1) cs r h2 = Inr (r + of_nat k * cs, h3)"
    and r3: "regions h3 = regions h2" and f3: "free_calls h3 = free_calls h2"
    and links3: "\<And>j. j < k \<Longrightarrow> load_ptr h3 (r + of_nat j * cs) = Inr (r + of_nat (Suc j) * cs)"
    and frame3: "\<And>c. \<not> (unat r \<le> unat c \<and> unat c < unat r + k * unat cs) \<Longrightarrow> bytes h3 c = bytes h2 c"
    by auto
  define last where "last = r + of_nat k * cs"
  have ul: "unat last = unat r + k * unat cs"
    unfolding last_def using rn n_eq cs8 by (intro unat_chunk) (simp add: cs_def)
  have last0: "last \<noteq> 0" using ul rpos by (auto simp: unat_eq_0[symmetric])
  have accl: "accessible h3 last 8"
    using in2 r3 ul n_eq cs8 rn by (intro accessibleI[of r n]) (simp_all add: cs_def)
  obtain h4 where st4: "store_ptr h3 last 0 = Inr h4" using last0 accl by (rule store_ptr_ok)
  have r4: "regions h4 = (r, n) # regions h" using store_ptr_regions[OF st4] r3 r2 by simp
  have f4: "free_calls h4 = free_calls h"
    using store_ptr_free_calls[OF st4] f3 store_ptr_free_calls[OF st2] by (simp add: h1_def)
  have res: "allocate_block s h r
      = Inr (r, s\<lparr>m_current_block_index := m_current_block_index s + 1\<rparr>, h4)"
    using idx r0 m st2 ch st4
    by (simp add: allocate_block_def Let_def slot_def cs_def last_def not_le[symmetric])
  have l8: "unat last + 8 \<le> 2 ^ 64" using ul n_eq cs8 rn by (simp add: cs_def)
  \<comment> \<open>the table slot lies in an older allocation, away from the new block\<close>
  have sd: "unat r + n \<le> unat slot \<or> unat slot + 8 \<le> unat r"
    by (rule fresh_disjoint[OF fr slot_acc]) simp
  have s8: "unat slot + 8 \<le> 2 ^ 64"
    using slot_acc by (auto elim: accessibleE)
  have slot_last: "apart last slot"
    using sd ul n_eq cs8 by (intro apartI l8 s8) (auto simp: cs_def)
  have slot_val: "load_ptr h4 slot = Inr r"
  proof -
    have "load_ptr h4 slot = load_ptr h3 slot" by (rule load_store_apart[OF st4 slot_last])
    also have "\<dots> = load_ptr h2 slot"
    proof (rule load_ptr_cong[OF accessible_regions_cong[OF r3]])
      fix i :: nat assume i: "i < 8"
      have "\<not> (unat r \<le> unat (slot + of_nat i) \<and> unat (slot + of_nat i) < unat r + n)"
        by (rule outside_offset[OF s8 sd i])
      then show "bytes h3 (slot + of_nat i) = bytes h2 (slot + of_nat i)"
        using n_eq by (intro frame3) auto
    qed
    also have "\<dots> = Inr r" by (rule load_store_same[OF st2])
    finally show ?thesis .
  qed
  have links4: "load_ptr h4 (r + of_nat j * cs) = Inr (r + of_nat (Suc j) * cs)" if j: "j < k" for j
  proof -
    have uj: "unat (r + of_nat j * cs) = unat r + j * unat cs"
    proof (rule unat_chunk)
      have le: "j * unat cs \<le> k * unat cs" using j by (intro mult_le_mono1) simp
      have "unat r + k * unat cs + 8 \<le> 18446744073709551616" using l8 ul by simp
      with le have "unat r + j * unat cs < 18446744073709551616" by linarith
      then show "unat r + j * unat cs < 2 ^ 64" by simp
    qed
    have "Suc j * unat cs \<le> k * unat cs" using j by (intro mult_le_mono1) simp
    then have "j * unat cs + unat cs \<le> k * unat cs" by (simp only: mult_Suc add.commute)
    moreover have "8 \<le> unat cs" using cs8 by (simp add: cs_def)
    ultimately have "unat (r + of_nat j * cs) + 8 \<le> unat last" unfolding uj ul by linarith
    then have "apart last (r + of_nat j * cs)" using l8 by (intro apartI) auto
    from load_store_apart[OF st4 this] links3[OF j] show ?thesis by simp
  qed
  have last_val: "load_ptr h4 last = Inr 0" by (rule load_store_same[OF st4])
  have frame4: "bytes h4 c = bytes h c"
    if c: "\<not> unat (c - slot) < 8" "\<not> (unat r \<le> unat c \<and> unat c < unat r + n)" for c
  proof -
    have "unat (c - last) = (if unat last \<le> unat c then unat c - unat last else unat c + 2 ^ 64 - unat last)"
      by (rule unat_sub_cases)
    then have "\<not> unat (c - last) < 8"
      using c(2) ul n_eq cs8 l8 unat_lt64[of c] by (auto simp: cs_def split: if_splits)
    then have "bytes h4 c = bytes h3 c" by (rule store_ptr_bytes_outside[OF st4])
    also have "\<dots> = bytes h2 c" using c(2) n_eq by (intro frame3) auto
    also have "\<dots> = bytes h1 c" by (rule store_ptr_bytes_outside[OF st2 c(1)])
    also have "\<dots> = bytes h c" by (simp add: h1_def)
    finally show ?thesis .
  qed
  show ?thesis
    using res r4 f4 slot_val links4 last_val frame4 unfolding last_def by blast
qed

lemma allocate_block_fields:
  assumes "allocate_block s h r = Inr (b, s', h')"
  shows "m_chunk_size s' = m_chunk_size s \<and> m_chunks_per_block s' = m_chunks_per_block s \<and>
         m_max_blocks s' = m_max_blocks s \<and> m_blocks s' = m_blocks s \<and> m_alloc s' = m_alloc s"
  using assms unfolding allocate_block_def Let_def
  by (auto split: if_splits sum.splits prod.splits)

lemma allocate_block_regions:
  assumes "allocate_block s h r = Inr (b, s', h')"
  shows "set (regions h) \<subseteq> set (regions h')"
proof (cases "m_max_blocks s \<le> m_current_block_index s \<or> r = 0")
  case True
  then have "allocate_block s h r = Inr (0, s, h)"
    by (auto simp: allocate_block_def std_malloc_def Let_def)
  with assms show ?thesis by simp
next
  case False
  define h1 where "h1 = std_malloc h (m_chunks_per_block s * m_chunk_size s) r"
  from False assms obtain h2 chunk h3 where
    st2: "store_ptr h1 (m_blocks s + 8 * m_current_block_index s) r = Inr h2"
    and ch: "chain_chunks 0 (m_chunks_per_block s - 1) (m_chunk_size s) r h2 = Inr (chunk, h3)"
    and st4: "store_ptr h3 chunk 0 = Inr h'"
    unfolding allocate_block_def Let_def h1_def
    by (auto split: sum.splits prod.splits)
  have "regions h' = regions h1"
    using store_ptr_regions[OF st4] chain_chunks_regions[OF ch] store_ptr_regions[OF st2] by simp
  then show ?thesis by (auto simp: h1_def std_malloc_def)
qed

lemma allocate_block_unusable:
  assumes idx: "m_current_block_index s < m_max_blocks s" and r0: "r \<noteq> 0"
    and bad: "m_blocks s + 8 * m_current_block_index s = 0 \<or> unat (m_chunks_per_block s) = 0
              \<or> unat (m_chunk_size s) < 8"
    and nov: "unat (m_chunks_per_block s) * unat (m_chunk_size s) < 2 ^ 64"
    and fr: "fresh h r (unat (m_chunks_per_block s) * unat (m_chunk_size s))"
  shows "\<exists>e. allocate_block s h r = Inl e"
proof -
  have idx': "\<not> m_max_blocks s \<le> m_current_block_index s" using idx by simp
  let ?cs = "m_chunk_size s" and ?cpb = "m_chunks_per_block s"
  let ?slot = "m_blocks s + 8 * m_current_block_index s"
  define n where "n = unat ?cpb * unat ?cs"
  have bs: "unat (?cpb * ?cs) = n"
    using nov unat_mult_lem[of ?cpb ?cs] by (simp add: n_def)
  have fr: "fresh h r n" using fr by (simp add: n_def)
  define h1 where "h1 = h\<lparr>regions := (r, n) # regions h\<rparr>"
  have m: "std_malloc h (?cpb * ?cs) r = h1" using r0 bs by (simp add: std_malloc_def h1_def)
  show ?thesis
  proof (cases "store_ptr h1 ?slot r")
    case (Inl e)
    then show ?thesis using idx' r0 m by (simp add: allocate_block_def Let_def)
  next
    case (Inr h2)
    then have slot0: "?slot \<noteq> 0" by (simp add: store_ptr_Inr_iff)
    have r2: "regions h2 = (r, n) # regions h" using store_ptr_regions[OF Inr] by (simp add: h1_def)
    show ?thesis
    proof (cases "chain_chunks 0 (?cpb - 1) ?cs r h2")
      case (Inl e)
      then show ?thesis using idx' r0 m Inr by (simp add: allocate_block_def Let_def)
    next
      case ch: (Inr res)
      obtain c h3 where res: "res = (c, h3)" by (cases res)
      note ch = ch[unfolded res]
      have r3: "regions h3 = (r, n) # regions h" using chain_chunks_regions[OF ch] r2 by simp
      have cpos: "unat ?cpb \<noteq> 0"
      proof
        assume z: "unat ?cpb = 0"
        then have "?cpb = 0" by (simp add: unat_eq_0)
        then have lt: "(0 :: usize) < ?cpb - 1"
          by (simp add: word_less_nat_alt unsigned_minus_1_eq_mask mask_eq_exp_minus_1)
        have "n = 0" using z by (simp add: n_def)
        then have "\<not> accessible h1 r 8"
          unfolding h1_def using fr by (intro fresh_small_inaccessible) simp_all
        then have "\<not> accessible h2 r 8" using store_ptr_accessible[OF Inr] by simp
        then have "chain_chunks 0 (?cpb - 1) ?cs r h2 = Inl (OutOfBounds r)"
          using lt r0 by (subst chain_chunks.simps) (simp add: store_ptr_def)
        with ch show False by simp
      qed
      then have cs8: "unat ?cs < 8" using bad slot0 by simp
      have cpb0: "?cpb \<noteq> 0" using cpos by (auto simp: unat_eq_0)
      define k where "k = unat ?cpb - 1"
      have uk: "unat (?cpb - 1) = k" using unat_minus_one[OF cpb0] by (simp add: k_def)
      have nk: "n = Suc k * unat ?cs" using cpos by (simp add: n_def k_def)
      have c: "c = r + of_nat k * ?cs" using chain_chunks_result[OF ch] uk by simp
      have rn: "unat r + n \<le> 2 ^ 64" using fr by (simp add: fresh_def)
      have "k * unat ?cs \<le> n" unfolding nk by simp
      moreover have "n < 2 ^ 64" using nov by (simp add: n_def)
      ultimately have "unat r + k * unat ?cs < 2 ^ 64 \<or> (unat r + k * unat ?cs = 2 ^ 64)"
        using rn by linarith
      then have uc: "unat c = unat r + k * unat ?cs \<or> c = 0"
      proof
        assume "unat r + k * unat ?cs < 2 ^ 64"
        then show ?thesis unfolding c by (intro disjI1 unat_chunk)
      next
        assume e: "unat r + k * unat ?cs = 2 ^ 64"
        have "c = of_nat (unat r + k * unat ?cs)" unfolding c by simp
        also have "\<dots> = 0" unfolding e by simp
        finally show ?thesis by simp
      qed
      have "\<exists>e. store_ptr h3 c 0 = Inl e"
      proof (cases "c = 0")
        case True
        then show ?thesis by (simp add: store_ptr_def)
      next
        case False
        with uc have "unat c = unat r + k * unat ?cs" by simp
        from last_chunk_inaccessible[OF fr nk cs8 this]
        have "\<not> accessible h3 c 8" by (simp add: accessible_def r3)
        then show ?thesis using False by (simp add: store_ptr_def)
      qed
      then show ?thesis using idx' r0 m Inr ch by (auto simp: allocate_block_def Let_def)
    qed
  qed
qed

subsection \<open>Allocation and deallocation\<close>

lemma allocate_refill_fields:
  assumes "allocate_refill s h r = Inr (s', h')"
  shows "m_chunk_size s' = m_chunk_size s \<and> m_chunks_per_block s' = m_chunks_per_block s \<and>
         m_max_blocks s' = m_max_blocks s \<and> m_blocks s' = m_blocks s"
proof (cases "m_alloc s = 0")
  case True
  with assms obtain b s1 where ab: "allocate_block s h r = Inr (b, s1, h')" and s': "s' = s1\<lparr>m_alloc := b\<rparr>"
    by (auto simp: allocate_refill_def split: sum.splits)
  from allocate_block_fields[OF ab] s' show ?thesis by simp
next
  case False
  with assms show ?thesis by (simp add: allocate_refill_def)
qed

lemma allocate_fields:
  assumes "allocate s h r = Inr (p, s', h')"
  shows "m_chunk_size s' = m_chunk_size s \<and> m_chunks_per_block s' = m_chunks_per_block s \<and>
         m_max_blocks s' = m_max_blocks s \<and> m_blocks s' = m_blocks s"
proof -
  from assms obtain s1 h1 nxt where rf: "allocate_refill s h r = Inr (s1, h1)"
    and s': "s' = s1\<lparr>m_alloc := nxt\<rparr>"
    by (auto simp: allocate_def Let_def split: sum.splits)
  from allocate_refill_fields[OF rf] s' show ?thesis by simp
qed

lemma allocate_Inr_iff:
  "allocate s h r = Inr (p, s', h') \<longleftrightarrow>
     (\<exists>s1. allocate_refill s h r = Inr (s1, h') \<and> p = m_alloc s1 \<and>
           (\<exists>nxt. load_ptr h' p = Inr nxt \<and> s' = s1\<lparr>m_alloc := nxt\<rparr>))"
  by (auto simp: allocate_def Let_def split: sum.splits)

lemma deallocate_Inr_iff:
  "deallocate s h p = Inr (s', h') \<longleftrightarrow> s' = s\<lparr>m_alloc := p\<rparr> \<and> store_ptr h p (m_alloc s) = Inr h'"
  by (auto simp: deallocate_def split: sum.splits)

lemma allocate_exhausted:
  assumes "m_alloc s = 0" "m_max_blocks s \<le> m_current_block_index s"
  shows "allocate s h r = Inl NullDeref"
  using assms by (simp add: allocate_def allocate_refill_def allocate_block_def load_ptr_def)

lemma allocate_malloc_refused:
  assumes "m_alloc s = 0" "r = 0"
  shows "allocate s h r = Inl NullDeref"
  using assms by (simp add: allocate_def allocate_refill_def allocate_block_def load_ptr_def std_malloc_def Let_def)

lemma allocate_regions:
  assumes "allocate s h r = Inr (p, s', h')"
  shows "set (regions h) \<subseteq> set (regions h')"
proof -
  from assms obtain s1 where rf: "allocate_refill s h r = Inr (s1, h')"
    by (auto simp: allocate_Inr_iff)
  show ?thesis
  proof (cases "m_alloc s = 0")
    case True
    with rf obtain b s2 where "allocate_block s h r = Inr (b, s2, h')"
      by (auto simp: allocate_refill_def split: sum.splits)
    then show ?thesis by (rule allocate_block_regions)
  next
    case False
    with rf show ?thesis by (simp add: allocate_refill_def)
  qed
qed

lemma allocate_result_accessible:
  assumes "allocate s h r = Inr (p, s', h')"
  shows "p \<noteq> 0 \<and> accessible h' p 8"
  using assms by (auto simp: allocate_Inr_iff load_ptr_Inr_iff)

lemma deallocate_allocate:
  assumes "X \<noteq> 0" "accessible h X 8"
  shows "\<exists>h'. deallocate s h X = Inr (s\<lparr>m_alloc := X\<rparr>, h') \<and>
              allocate (s\<lparr>m_alloc := X\<rparr>) h' r = Inr (X, s, h')"
proof -
  obtain h' where st: "store_ptr h X (m_alloc s) = Inr h'" using assms by (rule store_ptr_ok)
  have d: "deallocate s h X = Inr (s\<lparr>m_alloc := X\<rparr>, h')" using st by (simp add: deallocate_def)
  have "load_ptr h' X = Inr (m_alloc s)" by (rule load_store_same[OF st])
  then have "allocate (s\<lparr>m_alloc := X\<rparr>) h' r = Inr (X, s, h')"
    using assms(1) by (simp add: allocate_def allocate_refill_def)
  with d show ?thesis by blast
qed

lemma allocate_unusable_faults:
  assumes empty: "m_alloc s = 0"
    and bad: "m_blocks s + 8 * m_current_block_index s = 0 \<or> unat (m_chunks_per_block s) = 0
              \<or> unat (m_chunk_size s) < 8"
    and nov: "unat (m_chunks_per_block s) * unat (m_chunk_size s) < 2 ^ 64"
    and ans: "m_current_block_index s < m_max_blocks s \<longrightarrow>
              r = 0 \<or> fresh h r (unat (m_chunks_per_block s * m_chunk_size s))"
  shows "\<exists>e. allocate s h r = Inl e"
proof (cases "m_max_blocks s \<le> m_current_block_index s \<or> r = 0")
  case True
  then show ?thesis using allocate_exhausted[OF empty] allocate_malloc_refused[OF empty] by blast
next
  case False
  then have idx: "m_current_block_index s < m_max_blocks s" and r0: "r \<noteq> 0"
    by (simp_all add: not_le)
  have "unat (m_chunks_per_block s * m_chunk_size s) = unat (m_chunks_per_block s) * unat (m_chunk_size s)"
    using nov unat_mult_lem[of "m_chunks_per_block s" "m_chunk_size s"] by simp
  with ans idx r0 have fr: "fresh h r (unat (m_chunks_per_block s) * unat (m_chunk_size s))" by simp
  from allocate_block_unusable[OF idx r0 bad nov fr] show ?thesis
    using empty by (auto simp: allocate_def allocate_refill_def)
qed

subsection \<open>Call sequences\<close>

lemma run_regions:
  "run s h ops = Inr (s', h') \<Longrightarrow> set (regions h) \<subseteq> set (regions h')"
proof (induction ops arbitrary: s h)
  case Nil
  then show ?case by simp
next
  case (Cons x ops)
  show ?case
  proof (cases x)
    case (Allocate r)
    with Cons.prems obtain p s1 h1 where
      a: "allocate s h r = Inr (p, s1, h1)" and r: "run s1 h1 ops = Inr (s', h')"
      by (auto split: sum.splits)
    from allocate_regions[OF a] Cons.IH[OF r] show ?thesis by blast
  next
    case (Deallocate p)
    with Cons.prems obtain s1 h1 where
      d: "deallocate s h p = Inr (s1, h1)" and r: "run s1 h1 ops = Inr (s', h')"
      by (auto split: sum.splits)
    from d have "regions h1 = regions h" by (auto simp: deallocate_Inr_iff dest: store_ptr_regions)
    with Cons.IH[OF r] show ?thesis by simp
  qed
qed

lemma accessors_cs:
  assumes "run s h ops = Inr (s', h')"
  shows "m_chunk_size s' = m_chunk_size s"
  using assms
proof (induction ops arbitrary: s h)
  case Nil
  then show ?case by simp
next
  case (Cons x ops)
  show ?case
  proof (cases x)
    case (Allocate r)
    with Cons.prems obtain p s1 h1 where
      a: "allocate s h r = Inr (p, s1, h1)" and r: "run s1 h1 ops = Inr (s', h')"
      by (auto split: sum.splits)
    from allocate_fields[OF a] Cons.IH[OF r] show ?thesis by simp
  next
    case (Deallocate p)
    with Cons.prems obtain s1 h1 where
      d: "deallocate s h p = Inr (s1, h1)" and r: "run s1 h1 ops = Inr (s', h')"
      by (auto split: sum.splits)
    from d have "s1 = s\<lparr>m_alloc := p\<rparr>" by (simp add: deallocate_Inr_iff)
    with Cons.IH[OF r] show ?thesis by simp
  qed
qed

lemma run_checked_run:
  assumes "run_checked s h out ops = Some (Inr (s', h', out'))"
  shows "run s h ops = Inr (s', h')"
  using assms
proof (induction ops arbitrary: s h out)
  case Nil
  then show ?case by simp
next
  case (Cons x ops)
  then show ?case by (cases x) (auto split: if_splits sum.splits)
qed

lemma run_checked_stuck:
  assumes "\<And>r. m_alloc s = 0 \<and> m_current_block_index s < m_max_blocks s \<longrightarrow>
                r = 0 \<or> fresh h r (unat (m_chunks_per_block s * m_chunk_size s))
              \<Longrightarrow> \<exists>e. allocate s h r = Inl e"
    and "run_checked s h [] ops = Some (Inr (s', h', out'))"
  shows "out' = [] \<and> s' = s \<and> h' = h"
proof (cases ops)
  case Nil
  with assms(2) show ?thesis by simp
next
  case (Cons x xs)
  show ?thesis
  proof (cases x)
    case (Allocate r)
    show ?thesis
    proof (cases "m_alloc s = 0 \<and> m_current_block_index s < m_max_blocks s \<longrightarrow>
                r = 0 \<or> fresh h r (unat (m_chunks_per_block s * m_chunk_size s))")
      case True
      from assms(1)[OF True] obtain e where "allocate s h r = Inl e" by blast
      with assms(2) Cons Allocate True show ?thesis by (simp split: if_splits)
    next
      case False
      with assms(2) Cons Allocate show ?thesis by simp
    qed
  next
    case (Deallocate p)
    with assms(2) Cons show ?thesis by simp
  qed
qed

subsection \<open>The destructor\<close>

lemma std_free_Inr:
  assumes "std_free h p = Inr h'"
  shows "bytes h' = bytes h" "free_calls h' = free_calls h @ [p]"
    "regions h' = (if p = 0 then regions h else filter (\<lambda>(b, n). b \<noteq> p) (regions h))"
  using assms by (auto simp: std_free_def split: if_splits)

lemma std_free_ok:
  assumes "(p, n) \<in> set (regions h)"
  obtains h' where "std_free h p = Inr h'"
proof -
  have "list_ex (\<lambda>(b, n). b = p) (regions h)" using assms by (auto simp: list_ex_iff)
  then have "\<exists>h'. std_free h p = Inr h'" by (simp add: std_free_def)
  then show ?thesis using that by blast
qed

lemma free_blocks_trace:
  assumes "free_blocks i s h = Inr h'"
  shows "bytes h' = bytes h \<and>
         free_calls h' = free_calls h @
           map (table_entry (bytes h) (m_blocks s)) [unat i..<unat (m_current_block_index s)]"
  using assms
proof (induction i s h rule: free_blocks.induct)
  case (1 i s h)
  show ?case
  proof (cases "i < m_current_block_index s")
    case True
    with "1.prems" obtain b h1 where ld: "load_ptr h (m_blocks s + 8 * i) = Inr b"
      and fr: "std_free h b = Inr h1" and rec: "free_blocks (i + 1) s h1 = Inr h'"
      by (subst (asm) free_blocks.simps) (auto split: sum.splits)
    have b: "b = table_entry (bytes h) (m_blocks s) (unat i)"
      using ld by (simp add: load_ptr_Inr_iff table_entry_def)
    have lt: "unat i < unat (m_current_block_index s)" using True by (simp add: word_less_nat_alt)
    have "bytes h' = bytes h1 \<and>
         free_calls h' = free_calls h1 @
           map (table_entry (bytes h1) (m_blocks s)) [unat (i + 1)..<unat (m_current_block_index s)]"
      by (rule "1.IH"[OF True ld fr rec])
    then show ?thesis
      using std_free_Inr(1,2)[OF fr] b unat_succ[OF True] upt_conv_Cons[OF lt] by simp
  next
    case False
    then have "\<not> unat i < unat (m_current_block_index s)" by (simp add: word_less_nat_alt)
    with False "1.prems" show ?thesis by (subst (asm) free_blocks.simps) simp
  qed
qed

lemma free_blocks_total:
  assumes "unat (m_current_block_index s) = unat i + k"
    and "m_blocks s \<noteq> 0"
    and "(m_blocks s, tm) \<in> set (regions h)" "unat (m_blocks s) + tm \<le> 2 ^ 64"
    and "8 * unat (m_current_block_index s) \<le> tm"
    and "distinct (map (table_entry (bytes h) (m_blocks s)) [unat i..<unat (m_current_block_index s)])"
    and "\<forall>j\<in>{unat i..<unat (m_current_block_index s)}.
           table_entry (bytes h) (m_blocks s) j \<noteq> m_blocks s \<and>
           table_entry (bytes h) (m_blocks s) j \<in> fst ` set (regions h)"
  shows "\<exists>h'. free_blocks i s h = Inr h' \<and> (m_blocks s, tm) \<in> set (regions h')"
  using assms
proof (induction k arbitrary: i h)
  case 0
  then have "\<not> i < m_current_block_index s" by (simp add: word_less_nat_alt)
  then show ?case using "0.prems"(3) by (subst free_blocks.simps) simp
next
  case (Suc k)
  let ?t = "m_blocks s" and ?n = "unat (m_current_block_index s)"
  let ?e = "table_entry (bytes h) ?t"
  have lt: "i < m_current_block_index s" using Suc.prems(1) by (simp add: word_less_nat_alt)
  have ltn: "unat i < ?n" using Suc.prems(1) by simp
  have i1: "unat (i + 1) = Suc (unat i)" by (rule unat_succ[OF lt])
  have acc: "accessible h ?t (8 * unat (m_current_block_index s))"
    using Suc.prems(3,4,5) by (intro accessibleI[of ?t tm]) auto
  note slot = table_slot[OF Suc.prems(2) acc lt]
  have ld: "load_ptr h (?t + 8 * i) = Inr (?e (unat i))"
    using slot(2,3) by (simp add: load_ptr_def table_entry_def)
  have ei: "?e (unat i) \<noteq> ?t" "?e (unat i) \<in> fst ` set (regions h)"
    using Suc.prems(7) ltn by auto
  then obtain m where "(?e (unat i), m) \<in> set (regions h)" by auto
  then obtain h1 where fr: "std_free h (?e (unat i)) = Inr h1" by (rule std_free_ok)
  note f = std_free_Inr[OF fr]
  have keep: "(b, m') \<in> set (regions h1)" if "(b, m') \<in> set (regions h)" "b \<noteq> ?e (unat i)" for b m'
    using that f(3) by (auto split: if_splits)
  have up: "[unat i..<?n] = unat i # [Suc (unat i)..<?n]" by (rule upt_conv_Cons[OF ltn])
  have "\<exists>h'. free_blocks (i + 1) s h1 = Inr h' \<and> (?t, tm) \<in> set (regions h')"
  proof (rule Suc.IH)
    show "?n = unat (i + 1) + k" using Suc.prems(1) i1 by simp
    show "?t \<noteq> 0" by (rule Suc.prems(2))
    show "(?t, tm) \<in> set (regions h1)" using Suc.prems(3) ei(1) by (intro keep) auto
    show "unat ?t + tm \<le> 2 ^ 64" by (rule Suc.prems(4))
    show "8 * ?n \<le> tm" by (rule Suc.prems(5))
    show "distinct (map (table_entry (bytes h1) ?t) [unat (i + 1)..<?n])"
      using Suc.prems(6) up by (simp add: f(1) i1)
    show "\<forall>j\<in>{unat (i + 1)..<?n}. table_entry (bytes h1) ?t j \<noteq> ?t \<and>
            table_entry (bytes h1) ?t j \<in> fst ` set (regions h1)"
    proof
      fix j assume j: "j \<in> {unat (i + 1)..<?n}"
      then have j': "j \<in> {unat i..<?n}" "Suc (unat i) \<le> j" "j < ?n" using i1 by auto
      have "?e j \<in> ?e ` {Suc (unat i)..<?n}" using j'(2,3) by simp
      moreover have "?e (unat i) \<notin> ?e ` {Suc (unat i)..<?n}"
        using Suc.prems(6) unfolding up by simp
      ultimately have ne: "?e j \<noteq> ?e (unat i)" by metis
      from Suc.prems(7) j'(1) have "?e j \<noteq> ?t" "?e j \<in> fst ` set (regions h)" by auto
      then obtain m' where "(?e j, m') \<in> set (regions h)" by auto
      from keep[OF this ne] \<open>?e j \<noteq> ?t\<close>
      show "table_entry (bytes h1) ?t j \<noteq> ?t \<and> table_entry (bytes h1) ?t j \<in> fst ` set (regions h1)"
        by (auto simp: f(1) intro: rev_image_eqI)
    qed
  qed
  then obtain h' where "free_blocks (i + 1) s h1 = Inr h'" "(?t, tm) \<in> set (regions h')" by blast
  then show ?case using lt ld fr by (subst free_blocks.simps) simp
qed

lemma destroy_trace:
  assumes "destroy s h = Inr h'"
  shows "free_calls h' = free_calls h @ recorded_blocks s h @ [m_blocks s]"
proof -
  from assms obtain h1 where fb: "free_blocks 0 s h = Inr h1" and fr: "std_free h1 (m_blocks s) = Inr h'"
    by (auto simp: destroy_def split: sum.splits)
  from free_blocks_trace[OF fb] std_free_Inr(2)[OF fr] show ?thesis
    by (simp add: recorded_blocks_def)
qed

lemma destroy_total:
  assumes "m_blocks s \<noteq> 0" "(m_blocks s, tm) \<in> set (regions h)" "unat (m_blocks s) + tm \<le> 2 ^ 64"
    "8 * unat (m_current_block_index s) \<le> tm"
    "distinct (recorded_blocks s h @ [m_blocks s])"
    "set (recorded_blocks s h) \<subseteq> fst ` set (regions h)"
  shows "\<exists>h'. destroy s h = Inr h'"
proof -
  have "\<exists>h'. free_blocks 0 s h = Inr h' \<and> (m_blocks s, tm) \<in> set (regions h')"
  proof (rule free_blocks_total[where k = "unat (m_current_block_index s)"])
    show "unat (m_current_block_index s) = unat (0 :: usize) + unat (m_current_block_index s)" by simp
    show "distinct (map (table_entry (bytes h) (m_blocks s)) [unat (0 :: usize)..<unat (m_current_block_index s)])"
      using assms(5) by (simp add: recorded_blocks_def)
    show "\<forall>j\<in>{unat (0 :: usize)..<unat (m_current_block_index s)}.
       table_entry (bytes h) (m_blocks s) j \<noteq> m_blocks s \<and>
       table_entry (bytes h) (m_blocks s) j \<in> fst ` set (regions h)"
    proof
      fix j assume "j \<in> {unat (0 :: usize)..<unat (m_current_block_index s)}"
      then have "table_entry (bytes h) (m_blocks s) j \<in> set (recorded_blocks s h)"
        by (simp add: recorded_blocks_def)
      then show "table_entry (bytes h) (m_blocks s) j \<noteq> m_blocks s \<and>
          table_entry (bytes h) (m_blocks s) j \<in> fst ` set (regions h)"
        using assms(5,6) by auto
    qed
  qed (rule assms)+
  then obtain h1 where fb: "free_blocks 0 s h = Inr h1" and t: "(m_blocks s, tm) \<in> set (regions h1)"
    by blast
  from t obtain h' where "std_free h1 (m_blocks s) = Inr h'" by (rule std_free_ok)
  with fb show ?thesis by (simp add: destroy_def)
qed

subsection \<open>The invariant\<close>

lemma free_list_cong:
  assumes "free_list h p as" "\<And>a. a \<in> set as \<Longrightarrow> load_ptr h' a = load_ptr h a"
  shows "free_list h' p as"
  using assms
proof (induction as arbitrary: p)
  case Nil
  then show ?case by simp
next
  case (Cons a as)
  from Cons.prems(1) obtain q where pa: "p = a" "a \<noteq> 0" and ld: "load_ptr h a = Inr q"
    and fl: "free_list h q as"
    by (auto split: sum.splits)
  have "free_list h' q as" using fl Cons.prems(2) by (intro Cons.IH) auto
  moreover have "load_ptr h' a = Inr q" using Cons.prems(2)[of a] ld by simp
  ultimately show ?case using pa by simp
qed

lemma free_list_chain:
  assumes links: "\<And>j. j < k \<Longrightarrow> load_ptr h (c j) = Inr (c (Suc j))"
    and last: "load_ptr h (c k) = Inr 0"
    and nonnull: "\<And>j. j \<le> k \<Longrightarrow> c j \<noteq> 0"
    and "j \<le> k"
  shows "free_list h (c j) (map c [j..<Suc k])"
  using \<open>j \<le> k\<close>
proof (induction "k - j" arbitrary: j)
  case 0
  then have "j = k" by simp
  then show ?case using last nonnull[of k] by simp
next
  case (Suc d)
  then have jk: "j < k" by simp
  have "free_list h (c (Suc j)) (map c [Suc j..<Suc k])"
    using Suc.hyps(2) jk by (intro Suc.hyps(1)) auto
  moreover have "[j..<Suc k] = j # [Suc j..<Suc k]" using jk by (simp add: upt_conv_Cons)
  ultimately show ?case using links[OF jk] nonnull[of j] jk by simp
qed

lemma free_list_null: "free_list h 0 as \<longleftrightarrow> as = []"
  by (cases as) auto

lemma free_list_nonnull:
  assumes "free_list h p as" "p \<noteq> 0"
  obtains q as' where "as = p # as'" "load_ptr h p = Inr q" "free_list h q as'"
  using assms by (cases as) (auto split: sum.splits)

lemma separated_perm:
  assumes "separated cs xs" "set ys = set xs" "distinct ys"
  shows "separated cs ys"
  using assms by (simp add: separated_def)

lemma separated_new_block:
  fixes r :: addr and cs :: usize
  defines "c \<equiv> \<lambda>j. r + of_nat j * cs"
  assumes sep: "separated cs out"
    and old: "\<And>v. v \<in> set out \<Longrightarrow> unat r + n \<le> unat v \<or> unat v + unat cs \<le> unat r"
    and n: "n = Suc k * unat cs" and rn: "unat r + n \<le> 2 ^ 64" and cs: "0 < unat cs"
  shows "separated cs (map c [0..<Suc k] @ out)"
proof -
  have u: "unat (c j) = unat r + j * unat cs" if "j \<le> k" for j
  proof -
    have "j * unat cs \<le> k * unat cs" using that by (intro mult_le_mono1)
    then have "unat r + j * unat cs + unat cs \<le> unat r + n" unfolding n by simp
    then have "unat r + j * unat cs < 2 ^ 64" using rn cs by linarith
    then show ?thesis unfolding c_def by (rule unat_chunk)
  qed
  have inside: "unat r \<le> unat (c j) \<and> unat (c j) + unat cs \<le> unat r + n" if "j \<le> k" for j
  proof -
    have "j * unat cs \<le> k * unat cs" using that by (intro mult_le_mono1)
    then show ?thesis using u[OF that] unfolding n by simp
  qed
  have apart_new: "unat (c i) + unat cs \<le> unat (c j)" if "i < j" "j \<le> k" for i j
  proof -
    have "Suc i * unat cs \<le> j * unat cs" using that by (intro mult_le_mono1) simp
    then show ?thesis using u[of i] u[of j] that by simp
  qed
  have neq_new: "c i \<noteq> c j" if "i < j" "j \<le> k" for i j
    using apart_new[OF that] cs by auto
  have inj: "inj_on c {0..<Suc k}"
  proof (rule inj_onI)
    fix i j assume ij: "i \<in> {0..<Suc k}" "j \<in> {0..<Suc k}" "c i = c j"
    show "i = j"
    proof (rule ccontr)
      assume "i \<noteq> j"
      then consider "i < j" | "j < i" by linarith
      then show False using neq_new[of i j] neq_new[of j i] ij by cases auto
    qed
  qed
  have new_old: "unat (c j) + unat cs \<le> unat v \<or> unat v + unat cs \<le> unat (c j)"
    "c j \<noteq> v" if "j \<le> k" "v \<in> set out" for j v
    using old[OF that(2)] inside[OF that(1)] cs by auto
  have dm: "distinct (map c [0..<Suc k])"
    unfolding distinct_map using inj by (simp del: upt_Suc)
  have dj: "set (map c [0..<Suc k]) \<inter> set out = {}"
  proof -
    have "c j \<notin> set out" if "j \<le> k" for j using new_old(2)[OF that] by blast
    then show ?thesis by (auto simp del: upt_Suc simp: less_Suc_eq_le)
  qed
  have "distinct out" using sep by (simp add: separated_def)
  with dm dj have d: "distinct (map c [0..<Suc k] @ out)"
    by (simp only: distinct_append)
  have mem: "x \<in> set (map c [0..<Suc k] @ out) \<longleftrightarrow> (\<exists>j\<le>k. x = c j) \<or> x \<in> set out" for x
    by (auto simp del: upt_Suc simp: less_Suc_eq_le)
  have pw: "unat p + unat cs \<le> unat q \<or> unat q + unat cs \<le> unat p"
    if pm: "p \<in> set (map c [0..<Suc k] @ out)" and qm: "q \<in> set (map c [0..<Suc k] @ out)"
      and ne: "p \<noteq> q" for p q
  proof -
    consider (nn) i j where "p = c i" "q = c j" "i \<le> k" "j \<le> k"
      | (no) i where "p = c i" "i \<le> k" "q \<in> set out"
      | (on) j where "q = c j" "j \<le> k" "p \<in> set out"
      | (oo) "p \<in> set out" "q \<in> set out"
      using pm qm unfolding mem by blast
    then show ?thesis
    proof cases
      case nn
      with ne have "i \<noteq> j" by auto
      then consider "i < j" | "j < i" by linarith
      then show ?thesis using apart_new[of i j] apart_new[of j i] nn by cases auto
    next
      case no
      then show ?thesis using new_old(1)[of i q] by simp
    next
      case on
      then show ?thesis using new_old(1)[of j p] by auto
    next
      case oo
      then show ?thesis using sep ne by (auto simp: separated_def)
    qed
  qed
  show ?thesis unfolding separated_def using d pw by blast
qed

lemma chunk_inside:
  fixes r :: addr and cs :: usize
  assumes "n = Suc k * unat cs" "unat r + n \<le> 2 ^ 64" "0 < unat cs" "j \<le> k"
  shows "unat (r + of_nat j * cs) = unat r + j * unat cs"
    and "unat (r + of_nat j * cs) + unat cs \<le> unat r + n"
proof -
  have le: "j * unat cs \<le> k * unat cs" using assms(4) by (intro mult_le_mono1)
  then have b: "unat r + j * unat cs + unat cs \<le> unat r + n" unfolding assms(1) by simp
  then have "unat r + j * unat cs < 2 ^ 64" using assms(2,3) by linarith
  then show u: "unat (r + of_nat j * cs) = unat r + j * unat cs" by (rule unat_chunk)
  show "unat (r + of_nat j * cs) + unat cs \<le> unat r + n" using b u by simp
qed

lemma unat_table_slot:
  assumes "unat (t :: addr) + unat (mb :: usize) * 8 \<le> 2 ^ 64" "i < unat mb"
  shows "unat (t + 8 * of_nat i) = unat t + 8 * i"
proof -
  have "unat (t + of_nat i * 8) = unat t + i * unat (8 :: usize)"
    using assms by (intro unat_chunk) simp
  then show ?thesis by (simp add: mult.commute)
qed

lemma table_entry_cong:
  assumes "\<And>j. j < 8 \<Longrightarrow> m' (t + 8 * of_nat i + of_nat j) = m (t + 8 * of_nat i + of_nat j)"
  shows "table_entry m' t i = table_entry m t i"
proof -
  have "read_bytes m' (t + 8 * of_nat i) 8 = read_bytes m (t + 8 * of_nat i) 8"
    by (rule read_bytes_cong) (rule assms)
  then show ?thesis by (simp only: table_entry_def)
qed

lemma recorded_blocks_cong:
  assumes "m_blocks s' = m_blocks s" "m_current_block_index s' = m_current_block_index s"
    and "\<And>i. i < unat (m_current_block_index s) \<Longrightarrow>
           table_entry (bytes h') (m_blocks s) i = table_entry (bytes h) (m_blocks s) i"
  shows "recorded_blocks s' h' = recorded_blocks s h"
  using assms by (simp add: recorded_blocks_def)

lemma table_ok_same_heap:
  assumes "table_ok s h cs" "set cs' = set cs"
    and "m_blocks s' = m_blocks s" "m_current_block_index s' = m_current_block_index s"
    and "m_max_blocks s' = m_max_blocks s" "m_chunk_size s' = m_chunk_size s"
  shows "table_ok s' h cs'"
  using assms by (simp add: table_ok_def recorded_blocks_def)

lemma table_ok_store:
  assumes tok: "table_ok s h cs" and p: "p \<in> set cs"
    and pacc: "accessible h p (unat (m_chunk_size s))" and cs8: "8 \<le> unat (m_chunk_size s)"
    and tn: "unat (m_blocks s) + unat (m_max_blocks s) * 8 \<le> 2 ^ 64"
    and st: "store_ptr h p v = Inr h'"
  shows "table_ok s h' cs"
proof -
  let ?t = "m_blocks s" and ?mb = "m_max_blocks s"
  from tok p have d: "unat p + unat (m_chunk_size s) \<le> unat ?t \<or> unat ?t + unat ?mb * 8 \<le> unat p"
    and idx: "unat (m_current_block_index s) \<le> unat ?mb"
    by (simp_all add: table_ok_def)
  have p8: "unat p + 8 \<le> 2 ^ 64" using accessible_nowrap[OF pacc] cs8 by simp
  have keep: "table_entry (bytes h') ?t i = table_entry (bytes h) ?t i"
    if i: "i < unat (m_current_block_index s)" for i
  proof (rule table_entry_cong)
    fix j :: nat assume j: "j < 8"
    have i': "i < unat ?mb" using i idx by simp
    have u: "unat (?t + 8 * of_nat i) = unat ?t + 8 * i" by (rule unat_table_slot[OF tn i'])
    have "apart p (?t + 8 * of_nat i)"
      using d u i' tn cs8 by (intro apartI p8) auto
    from apart_offset[OF this j] show "bytes h' (?t + 8 * of_nat i + of_nat j) = bytes h (?t + 8 * of_nat i + of_nat j)"
      by (rule store_ptr_bytes_outside[OF st])
  qed
  have "recorded_blocks s h' = recorded_blocks s h"
    by (rule recorded_blocks_cong[OF refl refl keep])
  then show ?thesis using tok store_ptr_regions[OF st] by (simp add: table_ok_def)
qed

lemma table_ok_grow:
  fixes s :: pool
  defines "slot \<equiv> m_blocks s + 8 * m_current_block_index s"
    and "n \<equiv> unat (m_chunks_per_block s) * unat (m_chunk_size s)"
  assumes tok: "table_ok s h old"
    and tn: "unat (m_blocks s) + unat (m_max_blocks s) * 8 \<le> 2 ^ 64"
    and idx: "m_current_block_index s < m_max_blocks s"
    and fr: "fresh h r n"
    and reg: "regions h' = (r, n) # regions h"
    and sv: "load_ptr h' slot = Inr r"
    and frame: "\<And>c. \<not> unat (c - slot) < 8 \<Longrightarrow> \<not> (unat r \<le> unat c \<and> unat c < unat r + n)
                  \<Longrightarrow> bytes h' c = bytes h c"
    and s': "m_blocks s' = m_blocks s" "m_current_block_index s' = m_current_block_index s + 1"
      "m_max_blocks s' = m_max_blocks s" "m_chunk_size s' = m_chunk_size s"
    and new: "\<And>c. c \<in> set new \<Longrightarrow> unat r \<le> unat c \<and> unat c + unat (m_chunk_size s) \<le> unat r + n"
  shows "table_ok s' h' (new @ old)"
proof -
  let ?t = "m_blocks s" and ?mb = "m_max_blocks s" and ?k = "unat (m_current_block_index s)"
  from tok have treg: "(?t, unat ?mb * 8) \<in> set (regions h)"
    and dist: "distinct (recorded_blocks s h @ [?t])"
    and sub: "set (recorded_blocks s h) \<subseteq> fst ` set (regions h)"
    and old: "\<And>c. c \<in> set old \<Longrightarrow> unat c + unat (m_chunk_size s) \<le> unat ?t \<or> unat ?t + unat ?mb * 8 \<le> unat c"
    by (simp_all add: table_ok_def)
  have k: "?k < unat ?mb" using idx by (simp add: word_less_nat_alt)
  have k1: "unat (m_current_block_index s + 1) = Suc ?k" by (rule unat_succ[OF idx])
  have tacc: "accessible h ?t (unat ?mb * 8)"
    using treg tn by (intro accessibleI[of ?t "unat ?mb * 8"]) auto
  have away: "unat r + n \<le> unat ?t \<or> unat ?t + unat ?mb * 8 \<le> unat r"
    using k by (intro fresh_disjoint[OF fr tacc]) simp
  have uslot: "unat slot = unat ?t + 8 * ?k"
    using unat_table_slot[OF tn k] by (simp add: slot_def)
  have keep: "table_entry (bytes h') ?t i = table_entry (bytes h) ?t i" if i: "i < ?k" for i
  proof (rule table_entry_cong)
    fix j :: nat assume j: "j < 8"
    let ?a = "?t + 8 * of_nat i"
    have i': "i < unat ?mb" using i k by simp
    have u: "unat ?a = unat ?t + 8 * i" by (rule unat_table_slot[OF tn i'])
    have a8: "unat ?a + 8 \<le> 2 ^ 64" using u i' tn by simp
    have "apart slot ?a" using u uslot i k tn by (intro apartI) auto
    then have 1: "\<not> unat (?a + of_nat j - slot) < 8" by (rule apart_offset[OF _ j])
    have "unat r + n \<le> unat ?a \<or> unat ?a + 8 \<le> unat r" using away u i' by auto
    then have 2: "\<not> (unat r \<le> unat (?a + of_nat j) \<and> unat (?a + of_nat j) < unat r + n)"
      by (rule outside_offset[OF a8 _ j])
    show "bytes h' (?a + of_nat j) = bytes h (?a + of_nat j)" by (rule frame[OF 1 2])
  qed
  have newe: "table_entry (bytes h') ?t ?k = r"
    using sv by (simp add: load_ptr_Inr_iff table_entry_def slot_def)
  have rb: "recorded_blocks s' h' = recorded_blocks s h @ [r]"
    using keep newe by (simp add: recorded_blocks_def s' k1)
  have r_new: "r \<notin> fst ` set (regions h)" using fr by (auto simp: fresh_def list_all_iff)
  then have rt: "r \<noteq> ?t" using treg by (auto intro: rev_image_eqI)
  have rnb: "r \<notin> set (recorded_blocks s h)" using r_new sub by auto
  have d': "distinct (recorded_blocks s' h' @ [m_blocks s'])"
    using dist rt rnb by (simp add: rb s')
  have sub': "set (recorded_blocks s' h') \<subseteq> fst ` set (regions h')"
    using sub by (auto simp: rb reg)
  have chunks: "unat c + unat (m_chunk_size s) \<le> unat ?t \<or> unat ?t + unat ?mb * 8 \<le> unat c"
    if "c \<in> set (new @ old)" for c
  proof (cases "c \<in> set new")
    case True
    from new[OF this] away show ?thesis by auto
  next
    case False
    with that old show ?thesis by simp
  qed
  show ?thesis
    unfolding table_ok_def using treg k d' sub' chunks by (simp add: s' reg k1)
qed

lemma pool_invI:
  assumes "8 \<le> unat (m_chunk_size s)" "1 \<le> unat (m_chunks_per_block s)"
    "unat (m_chunks_per_block s) * unat (m_chunk_size s) < 2 ^ 64"
    "m_blocks s \<noteq> 0" "accessible h (m_blocks s) (8 * unat (m_max_blocks s))"
    "free_list h (m_alloc s) fl" "separated (m_chunk_size s) (fl @ out)"
    "\<forall>c\<in>set (fl @ out). c \<noteq> 0 \<and> accessible h c (unat (m_chunk_size s))"
    "table_ok s h (fl @ out)"
  shows "pool_inv s h out"
  unfolding pool_inv_def using assms by blast

lemma pool_inv_params:
  assumes "pool_inv s h out"
  shows "8 \<le> unat (m_chunk_size s)" "1 \<le> unat (m_chunks_per_block s)"
    "unat (m_chunks_per_block s) * unat (m_chunk_size s) < 2 ^ 64"
    "m_blocks s \<noteq> 0" "accessible h (m_blocks s) (8 * unat (m_max_blocks s))"
  using assms unfolding pool_inv_def by blast+

lemma deallocate_inv:
  assumes inv: "pool_inv s h out" and p: "p \<in> set out" and d: "deallocate s h p = Inr (s', h')"
  shows "pool_inv s' h' (remove1 p out)"
proof -
  let ?cs = "m_chunk_size s"
  from inv obtain fl where fl: "free_list h (m_alloc s) fl"
    and sep: "separated ?cs (fl @ out)"
    and ok: "\<And>c. c \<in> set (fl @ out) \<Longrightarrow> c \<noteq> 0 \<and> accessible h c (unat ?cs)"
    and tok: "table_ok s h (fl @ out)"
    and cs8: "8 \<le> unat ?cs"
    unfolding pool_inv_def by blast
  from d have s': "s' = s\<lparr>m_alloc := p\<rparr>" and st: "store_ptr h p (m_alloc s) = Inr h'"
    by (simp_all add: deallocate_Inr_iff)
  have reg: "regions h' = regions h" by (rule store_ptr_regions[OF st])
  have p0: "p \<noteq> 0" and pacc: "accessible h p (unat ?cs)" using ok[of p] p by simp_all
  have dist: "distinct (fl @ out)" using sep by (simp add: separated_def)
  have keep: "load_ptr h' c = load_ptr h c" if c: "c \<in> set fl" for c
  proof (rule load_store_apart[OF st])
    have "c \<noteq> p" using dist c p by auto
    then have "unat p + unat ?cs \<le> unat c \<or> unat c + unat ?cs \<le> unat p"
      using sep c p by (auto simp: separated_def)
    moreover have "unat p + unat ?cs \<le> 2 ^ 64" by (rule accessible_nowrap[OF pacc])
    moreover have "unat c + unat ?cs \<le> 2 ^ 64"
      using ok[of c] c accessible_nowrap[of h c "unat ?cs"] by simp
    ultimately show "apart p c" using cs8 by (intro apartI) auto
  qed
  have "free_list h' (m_alloc s) fl" by (rule free_list_cong[OF fl keep])
  moreover have "load_ptr h' p = Inr (m_alloc s)" by (rule load_store_same[OF st])
  ultimately have fl': "free_list h' (m_alloc s') (p # fl)" using p0 by (simp add: s')
  have set_eq: "set ((p # fl) @ remove1 p out) = set (fl @ out)"
    using dist p by auto
  have dist': "distinct ((p # fl) @ remove1 p out)"
    using dist p by auto
  have sep': "separated (m_chunk_size s') ((p # fl) @ remove1 p out)"
    using separated_perm[OF sep set_eq dist'] by (simp add: s')
  have ok': "\<forall>c\<in>set ((p # fl) @ remove1 p out). c \<noteq> 0 \<and> accessible h' c (unat (m_chunk_size s'))"
    unfolding set_eq using ok by (simp add: s' accessible_regions_cong[OF reg])
  note pp = pool_inv_params[OF inv]
  have tn: "unat (m_blocks s) + unat (m_max_blocks s) * 8 \<le> 2 ^ 64"
    using accessible_nowrap[OF pp(5)] by (simp add: mult.commute)
  have pin: "p \<in> set (fl @ out)" using p by simp
  have tok1: "table_ok s h' (fl @ out)"
    by (rule table_ok_store[OF tok pin pacc cs8 tn st])
  have tok': "table_ok s' h' ((p # fl) @ remove1 p out)"
    by (rule table_ok_same_heap[OF tok1 set_eq]) (simp_all add: s')
  show ?thesis
  proof (rule pool_invI[OF _ _ _ _ _ fl' sep' ok' tok'])
    show "8 \<le> unat (m_chunk_size s')" using pp(1) by (simp add: s')
    show "1 \<le> unat (m_chunks_per_block s')" using pp(2) by (simp add: s')
    show "unat (m_chunks_per_block s') * unat (m_chunk_size s') < 2 ^ 64" using pp(3) by (simp add: s')
    show "m_blocks s' \<noteq> 0" using pp(4) by (simp add: s')
    show "accessible h' (m_blocks s') (8 * unat (m_max_blocks s'))"
      using pp(5) by (simp add: s' accessible_regions_cong[OF reg])
  qed
qed

lemma allocate_inv:
  assumes inv: "pool_inv s h out"
    and ans: "m_alloc s = 0 \<and> m_current_block_index s < m_max_blocks s \<longrightarrow>
              r = 0 \<or> fresh h r (unat (m_chunks_per_block s * m_chunk_size s))"
    and al: "allocate s h r = Inr (p, s', h')"
  shows "pool_inv s' h' (p # out)"
proof -
  let ?cs = "m_chunk_size s"
  note pp = pool_inv_params[OF inv]
  from inv obtain fl where fl: "free_list h (m_alloc s) fl"
    and sep: "separated ?cs (fl @ out)"
    and ok: "\<And>c. c \<in> set (fl @ out) \<Longrightarrow> c \<noteq> 0 \<and> accessible h c (unat ?cs)"
    and tok: "table_ok s h (fl @ out)"
    unfolding pool_inv_def by blast
  have tn: "unat (m_blocks s) + unat (m_max_blocks s) * 8 \<le> 2 ^ 64"
    using accessible_nowrap[OF pp(5)] by (simp add: mult.commute)
  show ?thesis
  proof (cases "m_alloc s = 0")
    case False
    from al False obtain nxt where h': "h' = h" and p: "p = m_alloc s"
      and ld: "load_ptr h p = Inr nxt" and s': "s' = s\<lparr>m_alloc := nxt\<rparr>"
      by (auto simp: allocate_Inr_iff allocate_refill_def)
    from fl False p obtain q fl' where fl_eq: "fl = p # fl'" and ldq: "load_ptr h p = Inr q"
      and fl': "free_list h q fl'"
      by (auto elim: free_list_nonnull)
    have q: "q = nxt" using ld ldq by simp
    have dist: "distinct (fl @ out)" using sep by (simp add: separated_def)
    have set_eq: "set (fl' @ p # out) = set (fl @ out)" by (auto simp: fl_eq)
    have dist': "distinct (fl' @ p # out)" using dist by (auto simp: fl_eq)
    have sep': "separated (m_chunk_size s') (fl' @ p # out)"
      using separated_perm[OF sep set_eq dist'] by (simp add: s')
    have ok': "\<forall>c\<in>set (fl' @ p # out). c \<noteq> 0 \<and> accessible h' c (unat (m_chunk_size s'))"
      unfolding set_eq using ok by (simp add: s' h')
    have fl'': "free_list h' (m_alloc s') fl'" using fl' q by (simp add: s' h')
    have tok': "table_ok s' h' (fl' @ p # out)"
      unfolding h' by (rule table_ok_same_heap[OF tok set_eq]) (simp_all add: s')
    show ?thesis
    proof (rule pool_invI[OF _ _ _ _ _ fl'' sep' ok' tok'])
      show "8 \<le> unat (m_chunk_size s')" using pp(1) by (simp add: s')
      show "1 \<le> unat (m_chunks_per_block s')" using pp(2) by (simp add: s')
      show "unat (m_chunks_per_block s') * unat (m_chunk_size s') < 2 ^ 64" using pp(3) by (simp add: s')
      show "m_blocks s' \<noteq> 0" using pp(4) by (simp add: s')
      show "accessible h' (m_blocks s') (8 * unat (m_max_blocks s'))" using pp(5) by (simp add: s' h')
    qed
  next
    case True
    define n where "n = unat (m_chunks_per_block s) * unat ?cs"
    define k where "k = unat (m_chunks_per_block s) - 1"
    define c where "c = (\<lambda>j. r + of_nat j * ?cs)"
    have fl_nil: "fl = []" using fl True by (simp add: free_list_null)
    have idx: "m_current_block_index s < m_max_blocks s"
    proof (rule ccontr)
      assume "\<not> m_current_block_index s < m_max_blocks s"
      then have "allocate s h r = Inl NullDeref" using True by (intro allocate_exhausted) auto
      with al show False by simp
    qed
    have r0: "r \<noteq> 0"
    proof
      assume "r = 0"
      then have "allocate s h r = Inl NullDeref" using True by (intro allocate_malloc_refused)
      with al show False by simp
    qed
    have "unat (m_chunks_per_block s * ?cs) = n"
      using pp(3) unat_mult_lem[of "m_chunks_per_block s" ?cs] by (simp add: n_def)
    with ans r0 True idx have fr: "fresh h r n" by simp
    have nk: "n = Suc k * unat ?cs" using pp(2) by (simp add: n_def k_def)
    have rn: "unat r + n \<le> 2 ^ 64" using fr by (simp add: fresh_def)
    have cs0: "0 < unat ?cs" using pp(1) by simp
    note slot = table_slot[OF pp(4) pp(5) idx]
    from allocate_block_grows[OF idx pp(2) pp(1) pp(3) fr[unfolded n_def] slot(2,3)]
    obtain h4 where ab: "allocate_block s h r
            = Inr (r, s\<lparr>m_current_block_index := m_current_block_index s + 1\<rparr>, h4)"
      and reg: "regions h4 = (r, n) # regions h"
      and sv: "load_ptr h4 (m_blocks s + 8 * m_current_block_index s) = Inr r"
      and links: "\<And>j. j < k \<Longrightarrow> load_ptr h4 (c j) = Inr (c (Suc j))"
      and last: "load_ptr h4 (c k) = Inr 0"
      and frame: "\<And>x. \<not> unat (x - (m_blocks s + 8 * m_current_block_index s)) < 8 \<Longrightarrow>
                   \<not> (unat r \<le> unat x \<and> unat x < unat r + n) \<Longrightarrow> bytes h4 x = bytes h x"
      unfolding n_def k_def c_def by blast
    have c0: "c 0 = r" by (simp add: c_def)
    from al True ab obtain nxt where h': "h' = h4" and p: "p = r"
      and ld: "load_ptr h4 r = Inr nxt"
      and s': "s' = s\<lparr>m_current_block_index := m_current_block_index s + 1, m_alloc := nxt\<rparr>"
      by (auto simp: allocate_Inr_iff allocate_refill_def)
    have uc: "unat (c j) = unat r + j * unat ?cs" "unat (c j) + unat ?cs \<le> unat r + n" if "j \<le> k" for j
      using chunk_inside[OF nk rn cs0 that] by (simp_all add: c_def)
    have cnz: "c j \<noteq> 0" if "j \<le> k" for j
    proof -
      have "0 < unat r" using r0 by (simp add: unat_gt_0)
      then have "0 < unat (c j)" using uc(1)[OF that] by simp
      then show ?thesis by (simp add: unat_gt_0)
    qed
    have cacc: "accessible h4 (c j) (unat ?cs)" if "j \<le> k" for j
      using uc[OF that] rn by (intro accessibleI[of r n]) (simp_all add: reg)
    have sub: "set (regions h) \<subseteq> set (regions h4)" by (auto simp: reg)
    \<comment> \<open>the rest of the new block is the new free list\<close>
    have fl_new: "free_list h4 nxt (map c [1..<Suc k])"
    proof (cases "k = 0")
      case True
      then have "nxt = 0" using last ld c0 by simp
      then show ?thesis using True by simp
    next
      case False
      then have "nxt = c 1" using links[of 0] ld c0 by simp
      moreover have "free_list h4 (c 1) (map c [1..<Suc k])"
        using False by (intro free_list_chain links last cnz) auto
      ultimately show ?thesis by simp
    qed
    have old: "unat r + n \<le> unat v \<or> unat v + unat ?cs \<le> unat r" if "v \<in> set out" for v
    proof -
      have "accessible h v (unat ?cs)" using ok[of v] that by simp
      from fresh_disjoint[OF fr this cs0] show ?thesis .
    qed
    have sep_out: "separated ?cs out" using sep by (simp add: fl_nil)
    have sep_all: "separated ?cs (map c [0..<Suc k] @ out)"
      unfolding c_def by (rule separated_new_block[OF sep_out old nk rn cs0])
    have up: "[0..<Suc k] = 0 # [1..<Suc k]" by (simp add: upt_conv_Cons del: upt_Suc)
    have set_eq: "set (map c [1..<Suc k] @ p # out) = set (map c [0..<Suc k] @ out)"
      unfolding up by (auto simp: p c0 simp del: upt_Suc)
    have dist': "distinct (map c [1..<Suc k] @ p # out)"
      using sep_all unfolding separated_def up by (auto simp: p c0 simp del: upt_Suc)
    have sep': "separated (m_chunk_size s') (map c [1..<Suc k] @ p # out)"
      using separated_perm[OF sep_all set_eq dist'] by (simp add: s')
    have ok': "\<forall>x\<in>set (map c [1..<Suc k] @ p # out). x \<noteq> 0 \<and> accessible h' x (unat (m_chunk_size s'))"
    proof
      fix x assume "x \<in> set (map c [1..<Suc k] @ p # out)"
      then consider j where "x = c j" "j \<le> k" | "x \<in> set out"
        using c0 p by (auto simp del: upt_Suc simp: less_Suc_eq_le)
      then show "x \<noteq> 0 \<and> accessible h' x (unat (m_chunk_size s'))"
      proof cases
        case 1
        then show ?thesis using cnz cacc by (simp add: s' h')
      next
        case 2
        then have "x \<noteq> 0" "accessible h x (unat ?cs)" using ok[of x] by simp_all
        then show ?thesis using accessible_mono[OF _ sub] by (simp add: s' h')
      qed
    qed
    have fl'': "free_list h' (m_alloc s') (map c [1..<Suc k])" using fl_new by (simp add: s' h')
    have "table_ok s' h4 (map c [0..<Suc k] @ out)"
    proof (rule table_ok_grow[OF _ tn idx fr[unfolded n_def] reg[unfolded n_def] sv])
      show "table_ok s h out" using tok by (simp add: fl_nil)
      show "bytes h4 x = bytes h x"
        if "\<not> unat (x - (m_blocks s + 8 * m_current_block_index s)) < 8"
          "\<not> (unat r \<le> unat x \<and> unat x < unat r + unat (m_chunks_per_block s) * unat ?cs)" for x
        using that frame by (simp add: n_def)
      show "unat r \<le> unat x \<and> unat x + unat ?cs \<le> unat r + unat (m_chunks_per_block s) * unat ?cs"
        if "x \<in> set (map c [0..<Suc k])" for x
      proof -
        from that obtain j where "x = c j" "j \<le> k" by (auto simp del: upt_Suc simp: less_Suc_eq_le)
        then show ?thesis using uc[of j] by (simp add: n_def)
      qed
    qed (simp_all add: s')
    then have tok': "table_ok s' h' (map c [1..<Suc k] @ p # out)"
      unfolding h' by (rule table_ok_same_heap[OF _ set_eq]) simp_all
    show ?thesis
    proof (rule pool_invI[OF _ _ _ _ _ fl'' sep' ok' tok'])
      show "8 \<le> unat (m_chunk_size s')" using pp(1) by (simp add: s')
      show "1 \<le> unat (m_chunks_per_block s')" using pp(2) by (simp add: s')
      show "unat (m_chunks_per_block s') * unat (m_chunk_size s') < 2 ^ 64" using pp(3) by (simp add: s')
      show "m_blocks s' \<noteq> 0" using pp(4) by (simp add: s')
      show "accessible h' (m_blocks s') (8 * unat (m_max_blocks s'))"
        using accessible_mono[OF pp(5) sub] by (simp add: s' h')
    qed
  qed
qed

lemma run_checked_inv:
  assumes "pool_inv s h out" "run_checked s h out ops = Some (Inr (s', h', out'))"
  shows "pool_inv s' h' out'"
  using assms
proof (induction ops arbitrary: s h out)
  case Nil
  then show ?case by simp
next
  case (Cons x ops)
  show ?case
  proof (cases x)
    case (Allocate r)
    with Cons.prems(2) obtain p s1 h1 where
      ans: "m_alloc s = 0 \<and> m_current_block_index s < m_max_blocks s \<longrightarrow>
              r = 0 \<or> fresh h r (unat (m_chunks_per_block s * m_chunk_size s))"
      and a: "allocate s h r = Inr (p, s1, h1)"
      and r: "run_checked s1 h1 (p # out) ops = Some (Inr (s', h', out'))"
      by (auto split: if_splits sum.splits)
    from allocate_inv[OF Cons.prems(1) ans a] r show ?thesis by (rule Cons.IH)
  next
    case (Deallocate p)
    with Cons.prems(2) obtain s1 h1 where
      p: "p \<in> set out" and d: "deallocate s h p = Inr (s1, h1)"
      and r: "run_checked s1 h1 (remove1 p out) ops = Some (Inr (s', h', out'))"
      by (auto split: if_splits sum.splits)
    from deallocate_inv[OF Cons.prems(1) p d] r show ?thesis by (rule Cons.IH)
  qed
qed

lemma PoolAllocator_inv:
  assumes "8 \<le> unat es" "1 \<le> unat cpb" "unat cpb * unat es < 2 ^ 64"
    and "fresh h0 t (unat mb * 8)"
    and "PoolAllocator es cpb mb h0 t = Inr (s0, h1)"
  shows "pool_inv s0 h1 []"
proof -
  from assms(5) have s0: "s0 = \<lparr>m_chunk_size = es, m_chunks_per_block = cpb, m_max_blocks = mb,
      m_current_block_index = 0, m_blocks = t, m_alloc = 0\<rparr>"
    and h1: "h1 = std_calloc h0 mb 8 t"
    by (simp_all add: PoolAllocator_def)
  from assms(4) have t0: "t \<noteq> 0" and tn: "unat t + unat mb * 8 \<le> 2 ^ 64" by (simp_all add: fresh_def)
  have acc: "accessible h1 t (8 * unat mb)"
    using t0 tn by (simp add: h1 std_calloc_def accessible_def)
  show ?thesis
  proof (rule pool_invI[where fl = "[]"])
    show "free_list h1 (m_alloc s0) []" by (simp add: s0)
    show "separated (m_chunk_size s0) ([] @ [])" by (simp add: separated_def)
    show "table_ok s0 h1 ([] @ [])"
      using t0 by (simp add: table_ok_def recorded_blocks_def s0 h1 std_calloc_def)
  qed (use assms(1,2,3) t0 acc in \<open>simp_all add: s0\<close>)
qed

lemma pool_inv_outstanding:
  assumes "pool_inv s h out"
  shows "separated (m_chunk_size s) out"
    and "\<forall>p\<in>set out. p \<noteq> 0 \<and> unat p + unat (m_chunk_size s) \<le> 2 ^ 64"
proof -
  from assms obtain fl where sep: "separated (m_chunk_size s) (fl @ out)"
    and ok: "\<And>c. c \<in> set (fl @ out) \<Longrightarrow> c \<noteq> 0 \<and> accessible h c (unat (m_chunk_size s))"
    unfolding pool_inv_def by blast
  show "separated (m_chunk_size s) out" using sep by (auto simp: separated_def)
  show "\<forall>p\<in>set out. p \<noteq> 0 \<and> unat p + unat (m_chunk_size s) \<le> 2 ^ 64"
    using ok accessible_nowrap by auto
qed

lemma pool_inv_destroy:
  assumes "pool_inv s h out"
  shows "\<exists>h'. destroy s h = Inr h'"
proof -
  note pp = pool_inv_params[OF assms]
  from assms obtain fl where tok: "table_ok s h (fl @ out)"
    unfolding pool_inv_def by blast
  have tn: "unat (m_blocks s) + unat (m_max_blocks s) * 8 \<le> 2 ^ 64"
    using accessible_nowrap[OF pp(5)] by (simp add: mult.commute)
  show ?thesis
  proof (rule destroy_total[OF pp(4) _ tn])
    show "(m_blocks s, unat (m_max_blocks s) * 8) \<in> set (regions h)"
      using tok by (simp add: table_ok_def)
    show "8 * unat (m_current_block_index s) \<le> unat (m_max_blocks s) * 8"
      using tok by (simp add: table_ok_def)
    show "distinct (recorded_blocks s h @ [m_blocks s])" using tok by (simp add: table_ok_def)
    show "set (recorded_blocks s h) \<subseteq> fst ` set (regions h)" using tok by (simp add: table_ok_def)
  qed
qed

lemma destroy_fresh_pool:
  assumes "t = 0 \<or> fresh h0 t (unat mb * 8)"
    and "PoolAllocator es cpb mb h0 t = Inr (s0, h1)"
  shows "\<exists>h'. destroy s0 h1 = Inr h'"
proof -
  from assms(2) have s0: "m_current_block_index s0 = 0" "m_blocks s0 = t"
    and h1: "h1 = std_calloc h0 mb 8 t"
    by (auto simp: PoolAllocator_def)
  have fb: "free_blocks 0 s0 h1 = Inr h1" by (subst free_blocks.simps) (simp add: s0)
  have "\<exists>h'. std_free h1 t = Inr h'"
  proof (cases "t = 0")
    case True
    then show ?thesis by (simp add: std_free_def)
  next
    case False
    then have "(t, unat mb * 8) \<in> set (regions h1)" by (simp add: h1 std_calloc_def)
    then show ?thesis by (auto elim: std_free_ok)
  qed
  then show ?thesis using fb by (simp add: destroy_def s0)
qed

lemma destroy_after_run:
  assumes nov: "unat cpb * unat es < 2 ^ 64"
    and tab: "t = 0 \<or> fresh h0 t (unat mb * 8)"
    and con: "PoolAllocator es cpb mb h0 t = Inr (s0, h1)"
    and run: "run_checked s0 h1 [] ops = Some (Inr (s, h, out))"
  shows "\<exists>h'. destroy s h = Inr h'"
proof (cases "t \<noteq> 0 \<and> 1 \<le> unat cpb \<and> 8 \<le> unat es")
  case True
  with tab have fr: "fresh h0 t (unat mb * 8)" by simp
  have "pool_inv s0 h1 []" using True by (intro PoolAllocator_inv[OF _ _ nov fr con]) simp_all
  then have "pool_inv s h out" using run by (rule run_checked_inv)
  then show ?thesis by (rule pool_inv_destroy)
next
  case False
  from con have s0: "s0 = \<lparr>m_chunk_size = es, m_chunks_per_block = cpb, m_max_blocks = mb,
      m_current_block_index = 0, m_blocks = t, m_alloc = 0\<rparr>"
    by (simp add: PoolAllocator_def)
  have "out = [] \<and> s = s0 \<and> h = h1"
  proof (rule run_checked_stuck[OF _ run])
    fix r assume "m_alloc s0 = 0 \<and> m_current_block_index s0 < m_max_blocks s0 \<longrightarrow>
        r = 0 \<or> fresh h1 r (unat (m_chunks_per_block s0 * m_chunk_size s0))"
    then have ans: "m_current_block_index s0 < m_max_blocks s0 \<longrightarrow>
        r = 0 \<or> fresh h1 r (unat (m_chunks_per_block s0 * m_chunk_size s0))"
      by (simp add: s0)
    show "\<exists>e. allocate s0 h1 r = Inl e"
    proof (rule allocate_unusable_faults[OF _ _ _ ans])
      show "m_alloc s0 = 0" by (simp add: s0)
      show "m_blocks s0 + 8 * m_current_block_index s0 = 0 \<or> unat (m_chunks_per_block s0) = 0
              \<or> unat (m_chunk_size s0) < 8"
        using False by (auto simp: s0)
      show "unat (m_chunks_per_block s0) * unat (m_chunk_size s0) < 2 ^ 64"
        using nov by (simp add: s0)
    qed
  qed
  then show ?thesis using destroy_fresh_pool[OF tab con] by simp
qed

subsection \<open>The chaining loop past the block\<close>

lemma zero_region_accessible:
  "0 < n \<Longrightarrow> accessible (h\<lparr>regions := (r, 0) # regions h\<rparr>) a n = accessible h a n"
  by (auto simp: accessible_def)

lemma writable_regions_cong:
  "regions h' = regions h \<Longrightarrow> writable h' a = writable h a"
  by (simp add: writable_def accessible_def)

lemma store_ptr_unwritable:
  "\<not> writable h a \<Longrightarrow> store_ptr h a v = Inl (if a = 0 then NullDeref else OutOfBounds a)"
  by (auto simp: writable_def store_ptr_def)

text \<open>
  As long as the words it writes are live the loop goes on: after \<open>k\<close> rounds it stands
  at chunk \<open>k\<close> with the counter at \<open>i + k\<close>, and the link it wrote last, in chunk
  \<open>k - 1\<close>, points to chunk \<open>k\<close>.
\<close>

lemma chain_chunks_runs:
  assumes "unat i + k \<le> unat bound"
    and "\<forall>j<k. writable h (chunk_at c cs j)"
  shows "\<exists>h'. regions h' = regions h \<and> (k = 0 \<longrightarrow> h' = h) \<and>
           (0 < k \<longrightarrow> load_ptr h' (chunk_at c cs (k - 1)) = Inr (chunk_at c cs k)) \<and>
           chain_chunks i bound cs c h = chain_chunks (i + of_nat k) bound cs (chunk_at c cs k) h'"
  using assms
proof (induction k arbitrary: i c h)
  case 0
  show ?case by (intro exI[of _ h]) (simp add: chunk_at_def)
next
  case (Suc k)
  have lt: "i < bound" using Suc.prems(1) by (simp add: word_less_nat_alt)
  have i1: "unat (i + 1) = Suc (unat i)" by (rule unat_succ[OF lt])
  have "writable h (chunk_at c cs 0)" using Suc.prems(2) by blast
  then have w0: "c \<noteq> 0" "accessible h c 8" by (simp_all add: chunk_at_def writable_def)
  obtain h1 where st: "store_ptr h c (c + cs) = Inr h1" using w0 by (rule store_ptr_ok)
  have ld: "load_ptr h1 c = Inr (c + cs)" by (rule load_store_same[OF st])
  have r1: "regions h1 = regions h" by (rule store_ptr_regions[OF st])
  have nxt: "chunk_at (c + cs) cs j = chunk_at c cs (Suc j)" for j
    by (simp add: chunk_at_def algebra_simps)
  have w: "\<forall>j<k. writable h1 (chunk_at (c + cs) cs j)"
  proof (intro allI impI)
    fix j assume "j < k"
    then have "writable h (chunk_at c cs (Suc j))" using Suc.prems(2) by simp
    then show "writable h1 (chunk_at (c + cs) cs j)"
      by (simp only: nxt writable_regions_cong[OF r1])
  qed
  have b: "unat (i + 1) + k \<le> unat bound" using Suc.prems(1) i1 by simp
  from Suc.IH[OF b w] obtain h' where r': "regions h' = regions h1"
    and z: "k = 0 \<longrightarrow> h' = h1"
    and l: "0 < k \<longrightarrow> load_ptr h' (chunk_at (c + cs) cs (k - 1)) = Inr (chunk_at (c + cs) cs k)"
    and ch: "chain_chunks (i + 1) bound cs (c + cs) h1
             = chain_chunks (i + 1 + of_nat k) bound cs (chunk_at (c + cs) cs k) h'"
    by blast
  have step: "chain_chunks i bound cs c h = chain_chunks (i + 1) bound cs (c + cs) h1"
    using lt st ld by (subst chain_chunks.simps) simp
  have cnt: "i + 1 + of_nat k = i + of_nat (Suc k)" by simp
  have "chain_chunks (i + 1) bound cs (c + cs) h1
        = chain_chunks (i + of_nat (Suc k)) bound cs (chunk_at c cs (Suc k)) h'"
    using ch by (simp only: nxt cnt)
  with step have run: "chain_chunks i bound cs c h
        = chain_chunks (i + of_nat (Suc k)) bound cs (chunk_at c cs (Suc k)) h'"
    by (rule trans)
  have reg: "regions h' = regions h" using r' r1 by simp
  have last: "load_ptr h' (chunk_at c cs k) = Inr (chunk_at c cs (Suc k))"
  proof (cases k)
    case 0
    then show ?thesis using z ld by (simp add: chunk_at_def)
  next
    case (Suc k')
    then have "load_ptr h' (chunk_at (c + cs) cs k') = Inr (chunk_at (c + cs) cs (Suc k'))"
      using l by simp
    then show ?thesis by (simp only: nxt Suc)
  qed
  show ?case using run reg last by (intro exI[of _ h']) simp
qed

text \<open>The loop stops with a fault at the first word that is not live.\<close>

lemma chain_chunks_overrun:
  assumes k: "k < unat bound"
    and w: "\<forall>j<k. writable h (chunk_at c cs j)"
    and n: "\<not> writable h (chunk_at c cs k)"
  shows "chain_chunks 0 bound cs c h =
           Inl (if chunk_at c cs k = 0 then NullDeref else OutOfBounds (chunk_at c cs k))"
proof -
  have "unat (0 :: usize) + k \<le> unat bound" using k by simp
  from chain_chunks_runs[OF this w] obtain h' where r': "regions h' = regions h"
    and ch: "chain_chunks 0 bound cs c h = chain_chunks (of_nat k) bound cs (chunk_at c cs k) h'"
    by auto
  have "k < 2 ^ 64" using k unat_lt64[of bound] by simp
  then have "unat (of_nat k :: usize) = k" by (rule unat_of_nat64)
  then have lt: "(of_nat k :: usize) < bound" using k by (simp add: word_less_nat_alt)
  have "\<not> writable h' (chunk_at c cs k)" using n by (simp add: writable_regions_cong[OF r'])
  then have "chain_chunks (of_nat k) bound cs (chunk_at c cs k) h' =
           Inl (if chunk_at c cs k = 0 then NullDeref else OutOfBounds (chunk_at c cs k))"
    using lt by (subst chain_chunks.simps) (simp add: store_ptr_unwritable)
  with ch show ?thesis by simp
qed

text \<open>
  The first growth of a pool constructed with \<open>chunks_per_block = 0\<close>: a block of zero
  bytes is recorded in the table, and the chaining loop starts with the bound \<open>0 - 1\<close>.
\<close>

lemma zero_chunks_growth:
  assumes mb: "0 < mb"
    and t: "fresh h t (unat mb * 8)"
    and c: "PoolAllocator es 0 mb h t = Inr (s, h1)"
    and r: "r \<noteq> 0"
  shows "\<exists>h3. (\<forall>a. writable h3 a = writable h1 a) \<and>
           allocate_block s h1 r =
             (case chain_chunks 0 (m_chunks_per_block s - 1) es r h3 of
                Inl e \<Rightarrow> Inl e
              | Inr (chunk, h4) \<Rightarrow>
                  (case store_ptr h4 chunk 0 of
                     Inl e \<Rightarrow> Inl e
                   | Inr h5 \<Rightarrow> Inr (r, s\<lparr>m_current_block_index := m_current_block_index s + 1\<rparr>, h5)))"
proof -
  from c have s: "s = \<lparr>m_chunk_size = es, m_chunks_per_block = 0, m_max_blocks = mb,
      m_current_block_index = 0, m_blocks = t, m_alloc = 0\<rparr>"
    and h1: "h1 = std_calloc h mb 8 t"
    by (simp_all add: PoolAllocator_def)
  from t have t0: "t \<noteq> 0" by (simp add: fresh_def)
  have mb1: "1 \<le> unat mb" using mb by (simp add: word_less_nat_alt)
  define h2 where "h2 = h1\<lparr>regions := (r, 0) # regions h1\<rparr>"
  have m: "std_malloc h1 (m_chunks_per_block s * m_chunk_size s) r = h2"
    using r by (simp add: std_malloc_def s h2_def)
  have acc: "accessible h2 t 8"
    using mb1 t0 t by (simp add: h2_def h1 std_calloc_def accessible_def fresh_def)
  obtain h3 where st: "store_ptr h2 t r = Inr h3"
    using acc t0 by (simp add: store_ptr_def)
  have w: "writable h3 a = writable h1 a" for a
    using store_ptr_accessible[OF st, of a 8] zero_region_accessible[where n=8 and h=h1 and r=r and a=a]
    by (simp add: writable_def h2_def)
  from mb have mb0: "mb \<noteq> 0" by auto
  have "allocate_block s h1 r =
             (case chain_chunks 0 (m_chunks_per_block s - 1) es r h3 of
                Inl e \<Rightarrow> Inl e
              | Inr (chunk, h4) \<Rightarrow>
                  (case store_ptr h4 chunk 0 of
                     Inl e \<Rightarrow> Inl e
                   | Inr h5 \<Rightarrow> Inr (r, s\<lparr>m_current_block_index := m_current_block_index s + 1\<rparr>, h5)))"
    using mb0 r m st unfolding s
    by (simp add: allocate_block_def Let_def split: sum.splits prod.splits)
  with w show ?thesis by blast
qed

subsection \<open>The allocator object in memory\<close>

lemma other_fields_apart:
  "f \<in> set (other_fields this) \<Longrightarrow> apart (field_m_alloc this) f"
  by (auto simp: other_fields_def apart_def field_m_alloc_def field_m_chunk_size_def
      field_m_chunks_per_block_def field_m_max_blocks_def field_m_current_block_index_def
      field_m_blocks_def)

lemma deallocate_this_Inr_iff:
  "deallocate_this this h p = Inr h' \<longleftrightarrow>
     (\<exists>old h1. load_ptr h (field_m_alloc this) = Inr old \<and> store_ptr h p old = Inr h1 \<and>
        store_ptr h1 (field_m_alloc this) p = Inr h')"
  by (auto simp: deallocate_this_def split: sum.splits)

lemma load_pool_Inr_iff:
  "load_pool h this = Inr s \<longleftrightarrow>
     load_ptr h (field_m_chunk_size this) = Inr (m_chunk_size s) \<and>
     load_ptr h (field_m_chunks_per_block this) = Inr (m_chunks_per_block s) \<and>
     load_ptr h (field_m_max_blocks this) = Inr (m_max_blocks s) \<and>
     load_ptr h (field_m_current_block_index this) = Inr (m_current_block_index s) \<and>
     load_ptr h (field_m_blocks this) = Inr (m_blocks s) \<and>
     load_ptr h (field_m_alloc this) = Inr (m_alloc s)"
  by (cases s) (auto simp: load_pool_def split: sum.splits)

text \<open>
  The two stores of \<^verbatim>\<open>deallocate\<close>: what is known of the heap afterwards, whatever \<open>p\<close> is.
\<close>

lemma deallocate_this_effect:
  assumes d: "deallocate_this this h p = Inr h'"
  shows "regions h' = regions h" "free_calls h' = free_calls h"
    and "load_ptr h' (field_m_alloc this) = Inr p"
    and "apart p (field_m_alloc this) \<Longrightarrow> load_ptr h' p = load_ptr h (field_m_alloc this)"
    and "\<not> unat (c - p) < 8 \<Longrightarrow> \<not> unat (c - field_m_alloc this) < 8 \<Longrightarrow> bytes h' c = bytes h c"
    and "apart p q \<Longrightarrow> apart (field_m_alloc this) q \<Longrightarrow> load_ptr h' q = load_ptr h q"
proof -
  from d obtain old h1 where ld: "load_ptr h (field_m_alloc this) = Inr old"
    and st1: "store_ptr h p old = Inr h1" and st2: "store_ptr h1 (field_m_alloc this) p = Inr h'"
    by (auto simp: deallocate_this_Inr_iff)
  show "regions h' = regions h"
    using store_ptr_regions[OF st1] store_ptr_regions[OF st2] by simp
  show "free_calls h' = free_calls h"
    using store_ptr_free_calls[OF st1] store_ptr_free_calls[OF st2] by simp
  show "load_ptr h' (field_m_alloc this) = Inr p" by (rule load_store_same[OF st2])
  show "load_ptr h' p = load_ptr h (field_m_alloc this)" if a: "apart p (field_m_alloc this)"
  proof -
    have "load_ptr h' p = load_ptr h1 p" by (rule load_store_apart[OF st2 apart_sym[OF a]])
    also have "\<dots> = Inr old" by (rule load_store_same[OF st1])
    finally show ?thesis using ld by simp
  qed
  show "bytes h' c = bytes h c" if "\<not> unat (c - p) < 8" "\<not> unat (c - field_m_alloc this) < 8"
    using store_ptr_bytes_outside[OF st1 that(1)] store_ptr_bytes_outside[OF st2 that(2)] by simp
  show "load_ptr h' q = load_ptr h q" if "apart p q" "apart (field_m_alloc this) q"
    using load_store_apart[OF st1 that(1)] load_store_apart[OF st2 that(2)] by simp
qed

lemma deallocate_this_fields:
  assumes d: "deallocate_this this h p = Inr h'"
    and f: "f \<in> set (other_fields this)" and a: "apart p f"
  shows "load_ptr h' f = load_ptr h f"
  by (rule deallocate_this_effect(6)[OF d a other_fields_apart[OF f]])

lemma deallocate_this_pool:
  assumes d: "deallocate_this this h p = Inr h'"
    and s: "load_pool h this = Inr s"
    and a: "\<forall>f\<in>set (other_fields this). apart p f"
  shows "load_pool h' this = Inr (s\<lparr>m_alloc := p\<rparr>)"
proof -
  have "load_ptr h' f = load_ptr h f" if "f \<in> set (other_fields this)" for f
    using that a by (intro deallocate_this_fields[OF d]) auto
  then have "load_ptr h' (field_m_chunk_size this) = load_ptr h (field_m_chunk_size this)"
    "load_ptr h' (field_m_chunks_per_block this) = load_ptr h (field_m_chunks_per_block this)"
    "load_ptr h' (field_m_max_blocks this) = load_ptr h (field_m_max_blocks this)"
    "load_ptr h' (field_m_current_block_index this) = load_ptr h (field_m_current_block_index this)"
    "load_ptr h' (field_m_blocks this) = load_ptr h (field_m_blocks this)"
    by (simp_all add: other_fields_def)
  then show ?thesis
    using s deallocate_this_effect(3)[OF d] by (simp add: load_pool_Inr_iff)
qed

lemma deallocate_this_ok:
  assumes "field_m_alloc this \<noteq> 0" "accessible h (field_m_alloc this) 8" "p \<noteq> 0" "accessible h p 8"
  obtains h' where "deallocate_this this h p = Inr h'"
proof -
  obtain old where ld: "load_ptr h (field_m_alloc this) = Inr old"
    using assms(1,2) by (simp add: load_ptr_def)
  obtain h1 where st1: "store_ptr h p old = Inr h1" using assms(3,4) by (rule store_ptr_ok)
  have "accessible h1 (field_m_alloc this) 8"
    using assms(2) by (simp add: store_ptr_accessible[OF st1])
  with assms(1) obtain h' where "store_ptr h1 (field_m_alloc this) p = Inr h'"
    by (rule store_ptr_ok)
  with ld st1 have "deallocate_this this h p = Inr h'" by (auto simp: deallocate_this_Inr_iff)
  then show ?thesis by (rule that)
qed

text \<open>
  The record and the object in memory agree when \<open>p\<close> points outside the object: the
  call on the object is the call on the record, followed by the store of the new head
  into the member \<^verbatim>\<open>m_alloc\<close>, and the object then holds the record's new members.
\<close>

lemma deallocate_this_record:
  assumes s: "load_pool h this = Inr s"
    and a: "\<forall>f\<in>set (other_fields this). apart p f"
    and d: "deallocate_this this h p = Inr h'"
  shows "\<exists>h1. deallocate s h p = Inr (s\<lparr>m_alloc := p\<rparr>, h1) \<and>
           store_ptr h1 (field_m_alloc this) p = Inr h' \<and>
           load_pool h' this = Inr (s\<lparr>m_alloc := p\<rparr>)"
proof -
  from d obtain old h1 where ld: "load_ptr h (field_m_alloc this) = Inr old"
    and st1: "store_ptr h p old = Inr h1" and st2: "store_ptr h1 (field_m_alloc this) p = Inr h'"
    by (auto simp: deallocate_this_Inr_iff)
  from s ld have "old = m_alloc s" by (simp add: load_pool_Inr_iff)
  with st1 have "deallocate s h p = Inr (s\<lparr>m_alloc := p\<rparr>, h1)" by (simp add: deallocate_def)
  with st2 deallocate_this_pool[OF d s a] show ?thesis by blast
qed

section \<open>Claims\<close>

text \<open>
  C1. With an empty free list and \<open>block_count = max_blocks\<close>, \<^verbatim>\<open>allocate\<close> should return
  a null result. In the code \<^verbatim>\<open>_allocate_block\<close> returns \<^verbatim>\<open>nullptr\<close>, and \<^verbatim>\<open>allocate\<close>
  then reads \<^verbatim>\<open>m_alloc->next\<close> through it. For \<^verbatim>\<open>PoolAllocator<Item>(1, 1)\<close>: the
  first call returns the only chunk, the second dereferences the null pointer.
\<close>

theorem allocate_at_capacity_null_dereference:
  "PoolAllocator 16 1 1 empty_heap 0x1000 = Inr (one_chunk_pool, demo_heap) \<and>
   allocate one_chunk_pool demo_heap 0x2000 = Inr one_chunk_state1 \<and>
   fst one_chunk_state1 = 0x2000 \<and>
   m_alloc (fst (snd one_chunk_state1)) = 0 \<and>
   m_current_block_index (fst (snd one_chunk_state1)) = m_max_blocks (fst (snd one_chunk_state1)) \<and>
   allocate (fst (snd one_chunk_state1)) (snd (snd one_chunk_state1)) 0x3000 = Inl NullDeref"
  by (simp add: one_chunk_state1_def one_chunk_pool_def demo_heap_def eval_defs)

text \<open>
  C2. The claim: construction fails when the block-table allocation fails or a
  capacity is zero. The constructor has no failing path: called with
  \<open>chunks_per_block = 0\<close> it returns a pool.
\<close>

theorem PoolAllocator_zero_capacity_counterexample:
  "PoolAllocator 16 0 1 empty_heap 0x1000 =
     Inr (\<lparr>m_chunk_size = 16, m_chunks_per_block = 0, m_max_blocks = 1,
           m_current_block_index = 0, m_blocks = 0x1000, m_alloc = 0\<rparr>, demo_heap)"
  by (simp add: eval_defs demo_heap_def)

text \<open>
  C2, as the code has it: the constructor validates neither capacity. Whenever
  \<^verbatim>\<open>calloc\<close> returns the block table, construction returns a pool that stores the
  element size and both capacities as given, zero included, with block count zero,
  a null free-list head and a table of \<open>max_blocks\<close> null entries.
\<close>

theorem PoolAllocator_accepts_any_capacity:
  assumes "fresh h r (unat mb * 8)"
  shows "\<exists>s h'. PoolAllocator es cpb mb h r = Inr (s, h') \<and>
     chunk_size s = es \<and> chunks_per_block s = cpb \<and> max_blocks s = mb \<and>
     m_current_block_index s = 0 \<and> m_alloc s = 0 \<and> m_blocks s = r \<and>
     regions h' = (r, unat mb * 8) # regions h \<and>
     (\<forall>i<unat mb. load_ptr h' (r + 8 * of_nat i) = Inr 0)"
proof -
  have "r \<noteq> 0" using assms by (simp add: fresh_def)
  then have "regions (std_calloc h mb 8 r) = (r, unat mb * 8) # regions h"
    by (simp add: std_calloc_def)
  then show ?thesis
    using calloc_table_zero[OF assms]
    by (simp add: PoolAllocator_def chunk_size_def chunks_per_block_def max_blocks_def)
qed

theorem PoolAllocator_accepts_any_capacity_witness:
  "fresh empty_heap 0x1000 (unat (1 :: usize) * 8) \<and>
   (\<exists>s h'. PoolAllocator 16 0 1 empty_heap 0x1000 = Inr (s, h') \<and>
      chunks_per_block s = 0 \<and> max_blocks s = 1 \<and> load_ptr h' 0x1000 = Inr 0)"
proof -
  have f: "fresh empty_heap 0x1000 (unat (1 :: usize) * 8)"
    by (simp add: fresh_def empty_heap_def)
  from PoolAllocator_accepts_any_capacity[OF f, of 16 0]
  obtain s h' where c: "PoolAllocator 16 0 1 empty_heap 0x1000 = Inr (s, h')"
    "chunks_per_block s = 0" "max_blocks s = 1"
    "\<forall>i<unat (1 :: usize). load_ptr h' (0x1000 + 8 * of_nat i) = Inr 0"
    by blast
  from c(4) have "load_ptr h' (0x1000 + 8 * of_nat 0) = Inr 0" by simp
  with c f show ?thesis by auto
qed

text \<open>
  C3. From construction on, along every call sequence in which \<^verbatim>\<open>malloc\<close> answers with
  null or a fresh block and every \<^verbatim>\<open>deallocate\<close> is given an outstanding chunk, the
  outstanding chunks are distinct, non-null, and their ranges \<open>[p, p + sizeof(T))\<close> are
  pairwise disjoint. (With an element smaller than a pointer or \<open>chunks_per_block = 0\<close>
  every growth faults and nothing is ever outstanding.) The product
  \<open>chunks_per_block * sizeof(T)\<close> is assumed not to overflow.
\<close>

theorem outstanding_chunks_never_overlap:
  assumes nov: "unat cpb * unat es < 2 ^ 64"
    and tab: "t = 0 \<or> fresh h0 t (unat mb * 8)"
    and con: "PoolAllocator es cpb mb h0 t = Inr (s0, h1)"
    and run: "run_checked s0 h1 [] ops = Some (Inr (s, h, out))"
  shows "distinct out \<and>
         (\<forall>p\<in>set out. \<forall>q\<in>set out. p \<noteq> q \<longrightarrow>
              unat p + unat es \<le> unat q \<or> unat q + unat es \<le> unat p) \<and>
         (\<forall>p\<in>set out. p \<noteq> 0 \<and> unat p + unat es \<le> 2 ^ 64)"
proof (cases "t \<noteq> 0 \<and> 1 \<le> unat cpb \<and> 8 \<le> unat es")
  case True
  with tab have fr: "fresh h0 t (unat mb * 8)" by simp
  have "pool_inv s0 h1 []" using True by (intro PoolAllocator_inv[OF _ _ nov fr con]) simp_all
  then have inv: "pool_inv s h out" using run by (rule run_checked_inv)
  have "run s0 h1 ops = Inr (s, h)" by (rule run_checked_run[OF run])
  from accessors_cs[OF this] con have es: "m_chunk_size s = es"
    by (auto simp: PoolAllocator_def)
  from pool_inv_outstanding[OF inv] show ?thesis by (simp add: es separated_def)
next
  case False
  from con have s0: "s0 = \<lparr>m_chunk_size = es, m_chunks_per_block = cpb, m_max_blocks = mb,
      m_current_block_index = 0, m_blocks = t, m_alloc = 0\<rparr>"
    by (simp add: PoolAllocator_def)
  have "out = [] \<and> s = s0 \<and> h = h1"
  proof (rule run_checked_stuck[OF _ run])
    fix r assume "m_alloc s0 = 0 \<and> m_current_block_index s0 < m_max_blocks s0 \<longrightarrow>
        r = 0 \<or> fresh h1 r (unat (m_chunks_per_block s0 * m_chunk_size s0))"
    then have ans: "m_current_block_index s0 < m_max_blocks s0 \<longrightarrow>
        r = 0 \<or> fresh h1 r (unat (m_chunks_per_block s0 * m_chunk_size s0))"
      by (simp add: s0)
    show "\<exists>e. allocate s0 h1 r = Inl e"
    proof (rule allocate_unusable_faults[OF _ _ _ ans])
      show "m_alloc s0 = 0" by (simp add: s0)
      show "m_blocks s0 + 8 * m_current_block_index s0 = 0 \<or> unat (m_chunks_per_block s0) = 0
              \<or> unat (m_chunk_size s0) < 8"
        using False by (auto simp: s0)
      show "unat (m_chunks_per_block s0) * unat (m_chunk_size s0) < 2 ^ 64"
        using nov by (simp add: s0)
    qed
  qed
  then show ?thesis by simp
qed

theorem outstanding_chunks_never_overlap_witness:
  "PoolAllocator 16 2 1 empty_heap 0x1000 = Inr (demo_pool, demo_heap) \<and>
   fresh empty_heap 0x1000 (unat (1 :: usize) * 8) \<and>
   run_checked demo_pool demo_heap [] [Allocate 0x2000, Allocate 0, Deallocate 0x2000, Allocate 0]
     = Some (Inr (fst demo_state3, snd demo_state3, [0x2000, 0x2010])) \<and>
   unat (0x2000 :: addr) + unat (16 :: usize) \<le> unat (0x2010 :: addr)"
proof -
  have c: "PoolAllocator 16 2 1 empty_heap 0x1000 = Inr (demo_pool, demo_heap)"
    by (rule demo_construct)
  have f: "0x1000 = (0 :: addr) \<or> fresh empty_heap 0x1000 (unat (1 :: usize) * 8)"
    by (simp add: fresh_def empty_heap_def)
  have r: "run_checked demo_pool demo_heap [] [Allocate 0x2000, Allocate 0, Deallocate 0x2000, Allocate 0]
     = Some (Inr (fst demo_state3, snd demo_state3, [0x2000, 0x2010]))"
    by (simp add: demo_state3_def demo_pool_def demo_heap_def eval_defs)
  show ?thesis
    using outstanding_chunks_never_overlap[OF _ f c r] c f r by simp
qed

text \<open>
  C4. With \<open>block_count < max_blocks\<close> and \<open>C = chunks_per_block \<ge> 1\<close>, a growth for which
  \<^verbatim>\<open>malloc\<close> returns a fresh block, if it succeeds, stores the block's base in
  \<^verbatim>\<open>m_blocks[block_count]\<close>, increments the block count, links chunk \<open>i\<close> to chunk \<open>i + 1\<close>
  for \<open>i \<le> C - 2\<close>, gives the last chunk a null link and makes the base the free-list
  head; and it does succeed when the element is at least pointer-sized. The block
  table is live and \<open>C * sizeof(T)\<close> does not overflow.
\<close>

theorem growth_records_and_links_block:
  assumes "m_alloc s = 0"
    and "m_current_block_index s < m_max_blocks s"
    and "1 \<le> unat (m_chunks_per_block s)"
    and "unat (m_chunks_per_block s) * unat (m_chunk_size s) < 2 ^ 64"
    and "fresh h r (unat (m_chunks_per_block s) * unat (m_chunk_size s))"
    and "m_blocks s \<noteq> 0"
    and "accessible h (m_blocks s) (8 * unat (m_max_blocks s))"
  shows "(8 \<le> unat (m_chunk_size s) \<longrightarrow> (\<exists>s' h'. allocate_refill s h r = Inr (s', h'))) \<and>
         (\<forall>s' h'. allocate_refill s h r = Inr (s', h') \<longrightarrow>
            s' = s\<lparr>m_current_block_index := m_current_block_index s + 1, m_alloc := r\<rparr> \<and>
            load_ptr h' (m_blocks s + 8 * m_current_block_index s) = Inr r \<and>
            (\<forall>i. i + 1 < unat (m_chunks_per_block s) \<longrightarrow>
                 load_ptr h' (r + of_nat i * m_chunk_size s) = Inr (r + of_nat (i + 1) * m_chunk_size s)) \<and>
            load_ptr h' (r + (m_chunks_per_block s - 1) * m_chunk_size s) = Inr 0)"
proof (cases "8 \<le> unat (m_chunk_size s)")
  case True
  note slot = table_slot[OF assms(6,7,2)]
  from allocate_block_grows[OF assms(2,3) True assms(4,5) slot(2,3)]
  obtain h4 where ab: "allocate_block s h r
            = Inr (r, s\<lparr>m_current_block_index := m_current_block_index s + 1\<rparr>, h4)"
    and sv: "load_ptr h4 (m_blocks s + 8 * m_current_block_index s) = Inr r"
    and links: "\<And>j. j < unat (m_chunks_per_block s) - 1 \<Longrightarrow>
        load_ptr h4 (r + of_nat j * m_chunk_size s) = Inr (r + of_nat (Suc j) * m_chunk_size s)"
    and lst: "load_ptr h4 (r + of_nat (unat (m_chunks_per_block s) - 1) * m_chunk_size s) = Inr 0"
    by blast
  have cpb0: "m_chunks_per_block s \<noteq> 0" using assms(3) by (auto simp: unat_eq_0[symmetric])
  have "unat (m_chunks_per_block s - 1) = unat (m_chunks_per_block s) - 1"
    by (rule unat_minus_one[OF cpb0])
  then have "(of_nat (unat (m_chunks_per_block s) - 1) :: usize) = m_chunks_per_block s - 1"
    by (metis word_unat_eq_iff unat_of_nat64 unat_lt64)
  with lst have lst': "load_ptr h4 (r + (m_chunks_per_block s - 1) * m_chunk_size s) = Inr 0" by simp
  have rf: "allocate_refill s h r
      = Inr (s\<lparr>m_current_block_index := m_current_block_index s + 1, m_alloc := r\<rparr>, h4)"
    using ab assms(1) by (simp add: allocate_refill_def)
  show ?thesis using rf sv links lst' by auto
next
  case False
  have r0: "r \<noteq> 0" using assms(5) by (simp add: fresh_def)
  from False have "unat (m_chunk_size s) < 8" by simp
  then obtain e where "allocate_block s h r = Inl e"
    using allocate_block_unusable[OF assms(2) r0 _ assms(4,5)] by blast
  then have "allocate_refill s h r = Inl e" using assms(1) by (simp add: allocate_refill_def)
  with False show ?thesis by simp
qed

theorem growth_records_and_links_block_witness:
  "\<exists>h'. allocate_refill demo_pool demo_heap 0x2000
            = Inr (demo_pool\<lparr>m_current_block_index := 1, m_alloc := 0x2000\<rparr>, h') \<and>
         load_ptr h' 0x1000 = Inr 0x2000 \<and>
         load_ptr h' 0x2000 = Inr 0x2010 \<and>
         load_ptr h' 0x2010 = Inr 0"
proof -
  have 1: "m_alloc demo_pool = 0" "m_current_block_index demo_pool < m_max_blocks demo_pool"
    "1 \<le> unat (m_chunks_per_block demo_pool)"
    "unat (m_chunks_per_block demo_pool) * unat (m_chunk_size demo_pool) < 2 ^ 64"
    "m_blocks demo_pool \<noteq> 0" "8 \<le> unat (m_chunk_size demo_pool)"
    by (simp_all add: demo_pool_def)
  have 2: "fresh demo_heap 0x2000 (unat (m_chunks_per_block demo_pool) * unat (m_chunk_size demo_pool))"
    by (simp add: fresh_def demo_pool_def demo_heap_def)
  have 3: "accessible demo_heap (m_blocks demo_pool) (8 * unat (m_max_blocks demo_pool))"
    by (simp add: accessible_def demo_pool_def demo_heap_def)
  note g = growth_records_and_links_block[OF 1(1,2,3,4) 2 1(5) 3]
  from g 1(6) obtain s' h' where rf: "allocate_refill demo_pool demo_heap 0x2000 = Inr (s', h')"
    by blast
  with g have h: "s' = demo_pool\<lparr>m_current_block_index := m_current_block_index demo_pool + 1, m_alloc := 0x2000\<rparr>"
    "load_ptr h' (m_blocks demo_pool + 8 * m_current_block_index demo_pool) = Inr 0x2000"
    "\<forall>i. i + 1 < unat (m_chunks_per_block demo_pool) \<longrightarrow>
         load_ptr h' (0x2000 + of_nat i * m_chunk_size demo_pool) = Inr (0x2000 + of_nat (i + 1) * m_chunk_size demo_pool)"
    "load_ptr h' (0x2000 + (m_chunks_per_block demo_pool - 1) * m_chunk_size demo_pool) = Inr 0"
    by blast+
  from h(3) have "load_ptr h' (0x2000 + of_nat 0 * m_chunk_size demo_pool)
      = Inr (0x2000 + of_nat (0 + 1) * m_chunk_size demo_pool)"
    by (simp add: demo_pool_def)
  with rf h(1,2,4) show ?thesis by (intro exI[of _ h']) (simp add: demo_pool_def)
qed

text \<open>
  C5. A chunk \<open>X\<close> returned by \<^verbatim>\<open>allocate\<close>, after any further calls on the pool:
  \<^verbatim>\<open>deallocate(X)\<close> followed at once by \<^verbatim>\<open>allocate()\<close> returns \<open>X\<close>, and the pool is back in
  the state before the two calls.
\<close>

theorem deallocate_then_allocate_returns_chunk:
  assumes "allocate s0 h0 r0 = Inr (X, s1, h1)" and "run s1 h1 ops = Inr (s, h)"
  shows "\<exists>s' h'. deallocate s h X = Inr (s', h') \<and> allocate s' h' r = Inr (X, s, h')"
proof -
  from allocate_result_accessible[OF assms(1)] have "X \<noteq> 0" "accessible h1 X 8" by simp_all
  moreover from this(2) run_regions[OF assms(2)] have "accessible h X 8"
    by (rule accessible_mono)
  ultimately show ?thesis using deallocate_allocate[of X h s r] by blast
qed

theorem deallocate_then_allocate_returns_chunk_witness:
  "allocate demo_pool demo_heap 0x2000 = Inr (0x2000, snd demo_state1) \<and>
   run (fst (snd demo_state1)) (snd (snd demo_state1)) [Allocate 0] = Inr demo_state4 \<and>
   (\<exists>s' h'. deallocate (fst demo_state4) (snd demo_state4) 0x2000 = Inr (s', h') \<and>
            allocate s' h' 0 = Inr (0x2000, fst demo_state4, h'))"
proof -
  have a: "allocate demo_pool demo_heap 0x2000 = Inr (0x2000, fst (snd demo_state1), snd (snd demo_state1))"
    by (simp add: demo_state1_def demo_pool_def demo_heap_def eval_defs)
  have r: "run (fst (snd demo_state1)) (snd (snd demo_state1)) [Allocate 0]
      = Inr (fst demo_state4, snd demo_state4)"
    by (simp add: demo_state4_def demo_state1_def demo_pool_def demo_heap_def eval_defs)
  show ?thesis using deallocate_then_allocate_returns_chunk[OF a r, of 0] a r by simp
qed

text \<open>
  C6. A growth attempt that fails, because the block ceiling is reached or because
  \<^verbatim>\<open>malloc\<close> refuses the block, returns null and leaves the pool and the heap as they
  were; the assignment \<^verbatim>\<open>m_alloc = _allocate_block()\<close> then stores null over null.
\<close>

theorem failed_growth_keeps_state:
  assumes "m_max_blocks s \<le> m_current_block_index s \<or> r = 0"
  shows "allocate_block s h r = Inr (0, s, h) \<and>
         (m_alloc s = 0 \<longrightarrow> allocate_refill s h r = Inr (s, h))"
proof -
  have ab: "allocate_block s h r = Inr (0, s, h)"
    using assms by (auto simp: allocate_block_def std_malloc_def Let_def)
  have "m_alloc s = 0 \<Longrightarrow> s\<lparr>m_alloc := 0\<rparr> = s" by simp
  then show ?thesis using ab by (simp add: allocate_refill_def)
qed

theorem failed_growth_keeps_state_witness:
  "m_max_blocks full_pool \<le> m_current_block_index full_pool \<and>
   allocate_block full_pool empty_heap 0x3000 = Inr (0, full_pool, empty_heap) \<and>
   allocate_refill full_pool empty_heap 0x3000 = Inr (full_pool, empty_heap)"
  using failed_growth_keeps_state[where s=full_pool and r="0x3000" and h=empty_heap]
  by (simp add: full_pool_def)

text \<open>
  C7. The destructor calls \<^verbatim>\<open>free\<close> on the \<open>n = m_current_block_index\<close> pointers recorded
  in \<^verbatim>\<open>m_blocks[0 .. n-1]\<close>, in ascending index order, then on the block table, and on
  nothing else: \<open>n + 1\<close> calls, whatever the free list holds (\<open>m_alloc\<close> is not read).
  It runs to the end whenever the table is a live allocation and the recorded
  pointers are bases of distinct live allocations other than the table; a pool that
  was constructed and then used through \<^verbatim>\<open>allocate\<close> and \<^verbatim>\<open>deallocate\<close> of outstanding
  chunks is in such a state.
\<close>

theorem destroy_releases_blocks_then_table:
  "(\<forall>h'. destroy s h = Inr h' \<longrightarrow>
       free_calls h' = free_calls h @ recorded_blocks s h @ [m_blocks s] \<and>
       length (free_calls h') = length (free_calls h) + unat (m_current_block_index s) + 1) \<and>
   (m_blocks s \<noteq> 0 \<and> (m_blocks s, tm) \<in> set (regions h) \<and> unat (m_blocks s) + tm \<le> 2 ^ 64 \<and>
    8 * unat (m_current_block_index s) \<le> tm \<and>
    distinct (recorded_blocks s h @ [m_blocks s]) \<and>
    set (recorded_blocks s h) \<subseteq> fst ` set (regions h)
    \<longrightarrow> (\<exists>h'. destroy s h = Inr h')) \<and>
   (unat cpb * unat es < 2 ^ 64 \<and> (t = 0 \<or> fresh h0 t (unat mb * 8)) \<and>
    PoolAllocator es cpb mb h0 t = Inr (s0, h1) \<and>
    run_checked s0 h1 [] ops = Some (Inr (s, h, out))
    \<longrightarrow> (\<exists>h'. destroy s h = Inr h'))"
proof -
  have "length (recorded_blocks s h) = unat (m_current_block_index s)"
    by (simp add: recorded_blocks_def)
  then show ?thesis
    using destroy_trace[of s h] destroy_total[of s tm h] destroy_after_run[of cpb es t h0 mb s0 h1 ops s h out]
    by auto
qed

theorem destroy_releases_blocks_then_table_witness:
  "PoolAllocator 16 2 1 empty_heap 0x1000 = Inr (demo_pool, demo_heap) \<and>
   run_checked demo_pool demo_heap [] [Allocate 0x2000, Allocate 0, Deallocate 0x2000, Allocate 0]
     = Some (Inr (fst demo_state3, snd demo_state3, [0x2000, 0x2010])) \<and>
   recorded_blocks (fst demo_state3) (snd demo_state3) = [0x2000] \<and>
   m_blocks (fst demo_state3) = 0x1000 \<and>
   regions (snd demo_state3) = [(0x2000, 32), (0x1000, 8)] \<and>
   (\<exists>h'. destroy (fst demo_state3) (snd demo_state3) = Inr h' \<and>
         free_calls h' = [0x2000, 0x1000])"
proof -
  have c: "PoolAllocator 16 2 1 empty_heap 0x1000 = Inr (demo_pool, demo_heap)"
    by (rule demo_construct)
  have f: "0x1000 = (0 :: addr) \<or> fresh empty_heap 0x1000 (unat (1 :: usize) * 8)"
    by (simp add: fresh_def empty_heap_def)
  have r: "run_checked demo_pool demo_heap [] [Allocate 0x2000, Allocate 0, Deallocate 0x2000, Allocate 0]
     = Some (Inr (fst demo_state3, snd demo_state3, [0x2000, 0x2010]))"
    by (simp add: demo_state3_def demo_pool_def demo_heap_def eval_defs)
  have n: "unat (2 :: usize) * unat (16 :: usize) < 2 ^ 64" by simp
  have s: "m_blocks (fst demo_state3) = 0x1000" "m_current_block_index (fst demo_state3) = 1"
    by (simp_all add: demo_state3_def demo_pool_def demo_heap_def eval_defs)
  have fc: "free_calls (snd demo_state3) = []"
    by (simp add: demo_state3_def demo_pool_def demo_heap_def eval_defs)
  have b: "recorded_blocks (fst demo_state3) (snd demo_state3) = [0x2000]"
    by (simp add: recorded_blocks_def table_entry_def demo_state3_def demo_pool_def demo_heap_def eval_defs)
  note d = destroy_releases_blocks_then_table[of "fst demo_state3" "snd demo_state3" 8 2 16 "0x1000"
      empty_heap 1 demo_pool demo_heap "[Allocate 0x2000, Allocate 0, Deallocate 0x2000, Allocate 0]"
      "[0x2000, 0x2010]"]
  from d n f c r obtain h' where h': "destroy (fst demo_state3) (snd demo_state3) = Inr h'"
    by blast
  with d have "free_calls h' = free_calls (snd demo_state3) @
      recorded_blocks (fst demo_state3) (snd demo_state3) @ [m_blocks (fst demo_state3)]"
    by blast
  then have "free_calls h' = [0x2000, 0x1000]" by (simp add: fc b s)
  moreover have g: "regions (snd demo_state3) = [(0x2000, 32), (0x1000, 8)]"
    by (simp add: demo_state3_def demo_pool_def demo_heap_def eval_defs)
  moreover have "\<exists>h'. destroy (fst demo_state3) (snd demo_state3) = Inr h'"
    using d by (simp add: b s g)
  ultimately show ?thesis using h' c r b s by blast
qed

text \<open>
  C8. \<^verbatim>\<open>chunks_per_block()\<close>, \<^verbatim>\<open>max_blocks()\<close> and \<^verbatim>\<open>chunk_size()\<close> return the same
  values after any sequence of \<^verbatim>\<open>allocate\<close> and \<^verbatim>\<open>deallocate\<close> calls as before it.
\<close>

theorem accessors_constant:
  assumes "run s h ops = Inr (s', h')"
  shows "chunks_per_block s' = chunks_per_block s \<and> max_blocks s' = max_blocks s \<and>
         chunk_size s' = chunk_size s"
  using assms
proof (induction ops arbitrary: s h)
  case Nil
  then show ?case by simp
next
  case (Cons x ops)
  show ?case
  proof (cases x)
    case (Allocate r)
    with Cons.prems obtain p s1 h1 where
      a: "allocate s h r = Inr (p, s1, h1)" and r: "run s1 h1 ops = Inr (s', h')"
      by (auto split: sum.splits)
    from allocate_fields[OF a] Cons.IH[OF r] show ?thesis
      by (simp add: chunks_per_block_def max_blocks_def chunk_size_def)
  next
    case (Deallocate p)
    with Cons.prems obtain s1 h1 where
      d: "deallocate s h p = Inr (s1, h1)" and r: "run s1 h1 ops = Inr (s', h')"
      by (auto split: sum.splits)
    from d have "s1 = s\<lparr>m_alloc := p\<rparr>" by (simp add: deallocate_Inr_iff)
    with Cons.IH[OF r] show ?thesis
      by (simp add: chunks_per_block_def max_blocks_def chunk_size_def)
  qed
qed

theorem accessors_constant_witness:
  "run demo_pool demo_heap [Allocate 0x2000, Allocate 0, Deallocate 0x2000, Allocate 0] = Inr demo_state3 \<and>
   chunks_per_block (fst demo_state3) = chunks_per_block demo_pool \<and>
   max_blocks (fst demo_state3) = max_blocks demo_pool \<and>
   chunk_size (fst demo_state3) = chunk_size demo_pool"
proof -
  have r: "run demo_pool demo_heap [Allocate 0x2000, Allocate 0, Deallocate 0x2000, Allocate 0]
      = Inr (fst demo_state3, snd demo_state3)"
    by (simp add: demo_state3_def demo_pool_def demo_heap_def eval_defs)
  show ?thesis using accessors_constant[OF r] r by simp
qed

text \<open>
  C9. The constructor accepts \<open>chunks_per_block = 0\<close>. On the first growth the block has
  zero bytes and the bound \<open>m_chunks_per_block - 1\<close> of the chaining loop wraps to
  \<open>2^64 - 1\<close>, so the loop does not stop at the block: it writes a link into every word
  \<open>chunk_at r es j\<close> it comes to, all of them outside the block, and ends only with a
  fault at the first such word that is not live. With a block that overlaps no live
  memory that is the word at the block's base; the growth can return only if the loop
  has written all \<open>2^64 - 1\<close> links. The last conjunct is the loop itself, in any heap
  \<open>g\<close>: after \<open>k\<close> rounds over live words it goes on at chunk \<open>k\<close>, in a heap where the
  link of chunk \<open>k - 1\<close> is written.
\<close>

theorem zero_chunks_per_block_overrun:
  assumes mb: "0 < mb"
    and t: "fresh h t (unat mb * 8)"
    and c: "PoolAllocator es 0 mb h t = Inr (s, h1)"
    and r: "r \<noteq> 0"
  shows "chunks_per_block s = 0 \<and> unat (m_chunks_per_block s - 1) = 2 ^ 64 - 1 \<and>
         (fresh h1 r 0 \<longrightarrow>
            allocate_block s h1 r = Inl (OutOfBounds r) \<and> allocate s h1 r = Inl (OutOfBounds r)) \<and>
         (\<forall>k<2 ^ 64 - 1.
            (\<forall>j<k. writable h1 (chunk_at r es j)) \<and> \<not> writable h1 (chunk_at r es k) \<longrightarrow>
            allocate_block s h1 r =
              Inl (if chunk_at r es k = 0 then NullDeref else OutOfBounds (chunk_at r es k)) \<and>
            allocate s h1 r =
              Inl (if chunk_at r es k = 0 then NullDeref else OutOfBounds (chunk_at r es k))) \<and>
         (\<forall>b s' h'. allocate_block s h1 r = Inr (b, s', h') \<longrightarrow>
            (\<forall>j<2 ^ 64 - 1. writable h1 (chunk_at r es j))) \<and>
         (\<forall>g k. 0 < k \<and> k \<le> 2 ^ 64 - 1 \<and> (\<forall>j<k. writable g (chunk_at r es j)) \<longrightarrow>
            (\<exists>g'. chain_chunks 0 (m_chunks_per_block s - 1) (m_chunk_size s) r g =
                    chain_chunks (of_nat k) (m_chunks_per_block s - 1) (m_chunk_size s)
                      (chunk_at r es k) g' \<and>
                  regions g' = regions g \<and>
                  load_ptr g' (chunk_at r es (k - 1)) = Inr (chunk_at r es k)))"
proof -
  from c have s: "s = \<lparr>m_chunk_size = es, m_chunks_per_block = 0, m_max_blocks = mb,
      m_current_block_index = 0, m_blocks = t, m_alloc = 0\<rparr>"
    by (simp add: PoolAllocator_def)
  have bound: "unat (m_chunks_per_block s - 1) = 2 ^ 64 - 1"
    by (simp add: s unsigned_minus_1_eq_mask mask_eq_exp_minus_1)
  from zero_chunks_growth[OF mb t c r] obtain h3 where w3: "\<And>a. writable h3 a = writable h1 a"
    and ab: "allocate_block s h1 r =
             (case chain_chunks 0 (m_chunks_per_block s - 1) es r h3 of
                Inl e \<Rightarrow> Inl e
              | Inr (chunk, h4) \<Rightarrow>
                  (case store_ptr h4 chunk 0 of
                     Inl e \<Rightarrow> Inl e
                   | Inr h5 \<Rightarrow> Inr (r, s\<lparr>m_current_block_index := m_current_block_index s + 1\<rparr>, h5)))"
    by blast
  have al: "allocate s h1 r = Inl e" if "allocate_block s h1 r = Inl e" for e
    using that by (simp add: allocate_def allocate_refill_def s)
  have over: "allocate_block s h1 r =
        Inl (if chunk_at r es k = 0 then NullDeref else OutOfBounds (chunk_at r es k))"
    if k: "k < 2 ^ 64 - 1" and w: "\<forall>j<k. writable h1 (chunk_at r es j)"
      and n: "\<not> writable h1 (chunk_at r es k)" for k
  proof -
    have "k < unat (m_chunks_per_block s - 1)" using k bound by simp
    moreover have "\<forall>j<k. writable h3 (chunk_at r es j)" using w by (simp add: w3)
    moreover have "\<not> writable h3 (chunk_at r es k)" using n by (simp add: w3)
    ultimately have "chain_chunks 0 (m_chunks_per_block s - 1) es r h3 =
        Inl (if chunk_at r es k = 0 then NullDeref else OutOfBounds (chunk_at r es k))"
      by (rule chain_chunks_overrun)
    then show ?thesis by (simp add: ab)
  qed
  have fr: "allocate_block s h1 r = Inl (OutOfBounds r)" if f: "fresh h1 r 0"
  proof -
    have "\<not> accessible (h1\<lparr>regions := (r, 0) # regions h1\<rparr>) r 8"
      using f by (intro fresh_small_inaccessible) simp_all
    then have "\<not> writable h1 (chunk_at r es 0)"
      by (simp add: writable_def chunk_at_def zero_region_accessible)
    from over[of 0, OF _ _ this] r show ?thesis by (simp add: chunk_at_def)
  qed
  have all: "writable h1 (chunk_at r es j)"
    if ok: "allocate_block s h1 r = Inr (b, s', h')" and j: "j < 2 ^ 64 - 1" for b s' h' j
  proof (rule ccontr)
    assume nw: "\<not> writable h1 (chunk_at r es j)"
    define k where "k = (LEAST i. \<not> writable h1 (chunk_at r es i))"
    have n: "\<not> writable h1 (chunk_at r es k)" unfolding k_def using nw by (rule LeastI)
    have "k \<le> j" unfolding k_def using nw by (rule Least_le)
    then have k: "k < 2 ^ 64 - 1" using j by simp
    have "\<forall>i<k. writable h1 (chunk_at r es i)"
      unfolding k_def using not_less_Least by blast
    from over[OF k this n] ok show False by simp
  qed
  have c0: "chunks_per_block s = 0" by (simp add: chunks_per_block_def s)
  have cs: "m_chunk_size s = es" by (simp add: s)
  have links: "\<exists>g'. chain_chunks 0 (m_chunks_per_block s - 1) (m_chunk_size s) r g =
                  chain_chunks (of_nat k) (m_chunks_per_block s - 1) (m_chunk_size s)
                    (chunk_at r es k) g' \<and>
                regions g' = regions g \<and>
                load_ptr g' (chunk_at r es (k - 1)) = Inr (chunk_at r es k)"
    if k: "0 < k" "k \<le> 2 ^ 64 - 1" and w: "\<forall>j<k. writable g (chunk_at r es j)" for g k
  proof -
    have "unat (0 :: usize) + k \<le> unat (m_chunks_per_block s - 1)" using k(2) bound by simp
    from chain_chunks_runs[OF this w] k(1) show ?thesis by (auto simp: cs)
  qed
  show ?thesis
  proof (intro conjI allI impI)
    show "chunks_per_block s = 0" by (rule c0)
    show "unat (m_chunks_per_block s - 1) = 2 ^ 64 - 1" by (rule bound)
    show "allocate_block s h1 r = Inl (OutOfBounds r)" if "fresh h1 r 0"
      using that by (rule fr)
    show "allocate s h1 r = Inl (OutOfBounds r)" if "fresh h1 r 0"
      using that by (intro al fr)
    show "allocate_block s h1 r =
        Inl (if chunk_at r es k = 0 then NullDeref else OutOfBounds (chunk_at r es k))"
      if "k < 2 ^ 64 - 1"
        "(\<forall>j<k. writable h1 (chunk_at r es j)) \<and> \<not> writable h1 (chunk_at r es k)" for k
      using that by (intro over) simp_all
    show "allocate s h1 r =
        Inl (if chunk_at r es k = 0 then NullDeref else OutOfBounds (chunk_at r es k))"
      if "k < 2 ^ 64 - 1"
        "(\<forall>j<k. writable h1 (chunk_at r es j)) \<and> \<not> writable h1 (chunk_at r es k)" for k
      using that by (intro al over) simp_all
    show "writable h1 (chunk_at r es j)"
      if "allocate_block s h1 r = Inr (b, s', h')" "j < 2 ^ 64 - 1" for b s' h' j
      using that by (rule all)
    show "\<exists>g'. chain_chunks 0 (m_chunks_per_block s - 1) (m_chunk_size s) r g =
                  chain_chunks (of_nat k) (m_chunks_per_block s - 1) (m_chunk_size s)
                    (chunk_at r es k) g' \<and>
                regions g' = regions g \<and>
                load_ptr g' (chunk_at r es (k - 1)) = Inr (chunk_at r es k)"
      if "0 < k \<and> k \<le> 2 ^ 64 - 1 \<and> (\<forall>j<k. writable g (chunk_at r es j))" for g k
      using that by (intro links) simp_all
  qed
qed

theorem zero_chunks_per_block_overrun_witness:
  "PoolAllocator 16 0 1 empty_heap 0x1000 = Inr (demo_pool\<lparr>m_chunks_per_block := 0\<rparr>, demo_heap) \<and>
   fresh demo_heap 0x2000 0 \<and>
   allocate (demo_pool\<lparr>m_chunks_per_block := 0\<rparr>) demo_heap 0x2000 = Inl (OutOfBounds 0x2000) \<and>
   writable (std_calloc slack_heap 1 8 0x1000) 0x2000 \<and>
   writable (std_calloc slack_heap 1 8 0x1000) 0x2010 \<and>
   \<not> writable (std_calloc slack_heap 1 8 0x1000) 0x2020 \<and>
   allocate (demo_pool\<lparr>m_chunks_per_block := 0\<rparr>) (std_calloc slack_heap 1 8 0x1000) 0x2000
     = Inl (OutOfBounds 0x2020) \<and>
   (\<exists>g'. chain_chunks 0 (0 - 1) 16 0x2000 (std_calloc slack_heap 1 8 0x1000) =
           chain_chunks 2 (0 - 1) 16 0x2020 g' \<and>
         load_ptr g' 0x2010 = Inr 0x2020)"
proof -
  let ?s = "demo_pool\<lparr>m_chunks_per_block := 0\<rparr>" and ?h = "std_calloc slack_heap 1 8 0x1000"
  have c: "PoolAllocator 16 0 1 empty_heap 0x1000 = Inr (?s, demo_heap)"
    by (simp add: eval_defs demo_pool_def demo_heap_def)
  have t: "fresh empty_heap 0x1000 (unat (1 :: usize) * 8)" by (simp add: fresh_def empty_heap_def)
  have f: "fresh demo_heap 0x2000 0" by (simp add: fresh_def demo_heap_def)
  have c2: "PoolAllocator 16 0 1 slack_heap 0x1000 = Inr (?s, ?h)"
    by (simp add: PoolAllocator_def demo_pool_def)
  have t2: "fresh slack_heap 0x1000 (unat (1 :: usize) * 8)" by (simp add: fresh_def slack_heap_def)
  have w: "writable ?h 0x2000" "writable ?h 0x2010" "\<not> writable ?h 0x2020"
    by (simp_all add: writable_def slack_heap_def std_calloc_def accessible_def)
  have ch: "chunk_at 0x2000 16 0 = 0x2000" "chunk_at 0x2000 16 1 = 0x2010" "chunk_at 0x2000 16 2 = 0x2020"
    by (simp_all add: chunk_at_def)
  have pre: "(\<forall>j<2. writable ?h (chunk_at 0x2000 16 j)) \<and> \<not> writable ?h (chunk_at 0x2000 16 2)"
    using w ch by (simp add: less_2_cases_iff)
  have k: "(2 :: nat) < 2 ^ 64 - 1" by simp
  have mb: "(0 :: usize) < 1" and r: "(0x2000 :: addr) \<noteq> 0" by simp_all
  have a1: "allocate ?s demo_heap 0x2000 = Inl (OutOfBounds 0x2000)"
    using zero_chunks_per_block_overrun[OF mb t c r] f by blast
  have "allocate ?s ?h 0x2000 =
      Inl (if chunk_at 0x2000 16 2 = 0 then NullDeref else OutOfBounds (chunk_at 0x2000 16 2))"
    using zero_chunks_per_block_overrun[OF mb t2 c2 r] pre k by blast
  then have a2: "allocate ?s ?h 0x2000 = Inl (OutOfBounds 0x2020)" by (simp add: ch)
  have pre2: "(0 :: nat) < 2 \<and> (2 :: nat) \<le> 2 ^ 64 - 1 \<and> (\<forall>j<2. writable ?h (chunk_at 0x2000 16 j))"
    using pre by simp
  have "\<exists>g'. chain_chunks 0 (m_chunks_per_block ?s - 1) (m_chunk_size ?s) 0x2000 ?h =
                chain_chunks (of_nat 2) (m_chunks_per_block ?s - 1) (m_chunk_size ?s)
                  (chunk_at 0x2000 16 2) g' \<and>
              regions g' = regions ?h \<and>
              load_ptr g' (chunk_at 0x2000 16 (2 - 1)) = Inr (chunk_at 0x2000 16 2)"
    using zero_chunks_per_block_overrun[OF mb t2 c2 r] pre2 by blast
  then have a3: "\<exists>g'. chain_chunks 0 (0 - 1) 16 0x2000 ?h = chain_chunks 2 (0 - 1) 16 0x2020 g' \<and>
         load_ptr g' 0x2010 = Inr 0x2020"
    by (auto simp: chunk_at_def demo_pool_def)
  show ?thesis using c f a1 w a2 a3 by simp
qed

text \<open>
  C10. The claim: for every pointer \<open>p\<close>, \<^verbatim>\<open>deallocate(p)\<close> leaves the block count and every
  entry of the block table unchanged. The code checks nothing about \<open>p\<close>. For the pool
  object at \<open>0x3000\<close> with its table at \<open>0x1000\<close>: called with the address of the table it
  overwrites entry 0 (the block's base \<open>0x2000\<close>) with the free-list head \<open>0x2010\<close>, and
  called with the address of its own member \<^verbatim>\<open>m_current_block_index\<close> it overwrites the
  block count 1 with that head.
\<close>

theorem deallocate_aliasing_counterexample:
  "load_pool object_heap 0x3000 = Inr (fst (snd demo_state1)) \<and>
   m_blocks (fst (snd demo_state1)) = 0x1000 \<and>
   load_ptr object_heap 0x1000 = Inr 0x2000 \<and>
   deallocate_this 0x3000 object_heap 0x1000 = Inr object_heap_table \<and>
   load_ptr object_heap_table 0x1000 = Inr 0x2010 \<and>
   field_m_current_block_index 0x3000 = 0x3018 \<and>
   load_ptr object_heap 0x3018 = Inr 1 \<and>
   deallocate_this 0x3000 object_heap 0x3018 = Inr object_heap_count \<and>
   load_ptr object_heap_count 0x3018 = Inr 0x2010"
proof -
  have s: "load_pool object_heap 0x3000 = Inr (fst (snd demo_state1))"
    "m_blocks (fst (snd demo_state1)) = 0x1000" "m_alloc (fst (snd demo_state1)) = 0x2010"
    by (simp_all add: object_heap_def demo_state1_def demo_pool_def demo_heap_def eval_defs)
  have l: "load_ptr object_heap 0x1000 = Inr 0x2000" "load_ptr object_heap 0x3018 = Inr 1"
    by (simp_all add: object_heap_def demo_state1_def demo_pool_def demo_heap_def eval_defs)
  have old: "load_ptr object_heap (field_m_alloc 0x3000) = Inr 0x2010"
    using s by (simp add: load_pool_Inr_iff)
  have live: "field_m_alloc 0x3000 \<noteq> 0" "accessible object_heap (field_m_alloc 0x3000) 8"
    "accessible object_heap 0x1000 8" "accessible object_heap 0x3018 8"
    by (simp_all add: object_heap_def demo_state1_def demo_pool_def demo_heap_def eval_defs)
  have a: "apart 0x1000 (field_m_alloc 0x3000)" "apart 0x3018 (field_m_alloc 0x3000)"
    by (simp_all add: apart_def field_m_alloc_def)
  have f: "field_m_current_block_index 0x3000 = 0x3018"
    by (simp add: field_m_current_block_index_def)
  obtain h1 where "deallocate_this 0x3000 object_heap 0x1000 = Inr h1"
    using live by (auto elim: deallocate_this_ok[where p="0x1000"])
  then have d1: "deallocate_this 0x3000 object_heap 0x1000 = Inr object_heap_table"
    by (simp add: object_heap_table_def)
  obtain h2 where "deallocate_this 0x3000 object_heap 0x3018 = Inr h2"
    using live by (auto elim: deallocate_this_ok[where p="0x3018"])
  then have d2: "deallocate_this 0x3000 object_heap 0x3018 = Inr object_heap_count"
    by (simp add: object_heap_count_def)
  have l1: "load_ptr object_heap_table 0x1000 = Inr 0x2010"
    using deallocate_this_effect(4)[OF d1 a(1)] old by simp
  have l2: "load_ptr object_heap_count 0x3018 = Inr 0x2010"
    using deallocate_this_effect(4)[OF d2 a(2)] old by simp
  show ?thesis using s(1,2) l d1 l1 f d2 l2 by simp
qed

text \<open>
  C10, as the code has it. For \<open>p\<close> non-null in live memory \<^verbatim>\<open>deallocate(p)\<close> on a live
  object returns. It changes no byte outside the eight bytes at \<open>p\<close> and the member
  \<^verbatim>\<open>m_alloc\<close>, which ends as \<open>p\<close>; the live allocations are the same; the word at \<open>p\<close> ends
  as the old head when it shares no byte with \<^verbatim>\<open>m_alloc\<close>. Hence every word that shares no
  byte with the word at \<open>p\<close> or with \<^verbatim>\<open>m_alloc\<close> keeps its value (block-table entries and
  chunk links among them), and so does each other member of the object that shares no
  byte with the word at \<open>p\<close>: the block count, the capacities and the table pointer.
\<close>

theorem deallocate_frame:
  "(field_m_alloc this \<noteq> 0 \<and> accessible h (field_m_alloc this) 8 \<and> p \<noteq> 0 \<and> accessible h p 8 \<longrightarrow>
      (\<exists>h'. deallocate_this this h p = Inr h')) \<and>
   (\<forall>h'. deallocate_this this h p = Inr h' \<longrightarrow>
      regions h' = regions h \<and> free_calls h' = free_calls h \<and>
      load_ptr h' (field_m_alloc this) = Inr p \<and>
      (apart p (field_m_alloc this) \<longrightarrow> load_ptr h' p = load_ptr h (field_m_alloc this)) \<and>
      (\<forall>c. \<not> unat (c - p) < 8 \<and> \<not> unat (c - field_m_alloc this) < 8 \<longrightarrow> bytes h' c = bytes h c) \<and>
      (\<forall>q. apart p q \<and> apart (field_m_alloc this) q \<longrightarrow> load_ptr h' q = load_ptr h q) \<and>
      (\<forall>f\<in>set (other_fields this). apart p f \<longrightarrow> load_ptr h' f = load_ptr h f) \<and>
      (\<forall>s. load_pool h this = Inr s \<and> (\<forall>f\<in>set (other_fields this). apart p f) \<longrightarrow>
           load_pool h' this = Inr (s\<lparr>m_alloc := p\<rparr>)))"
proof (intro conjI impI allI ballI)
  assume "field_m_alloc this \<noteq> 0 \<and> accessible h (field_m_alloc this) 8 \<and> p \<noteq> 0 \<and> accessible h p 8"
  then show "\<exists>h'. deallocate_this this h p = Inr h'" by (auto elim: deallocate_this_ok)
next
  fix h' assume d: "deallocate_this this h p = Inr h'"
  show "regions h' = regions h" by (rule deallocate_this_effect(1)[OF d])
  show "free_calls h' = free_calls h" by (rule deallocate_this_effect(2)[OF d])
  show "load_ptr h' (field_m_alloc this) = Inr p" by (rule deallocate_this_effect(3)[OF d])
  show "load_ptr h' p = load_ptr h (field_m_alloc this)" if "apart p (field_m_alloc this)"
    using that by (rule deallocate_this_effect(4)[OF d])
  show "bytes h' c = bytes h c" if "\<not> unat (c - p) < 8 \<and> \<not> unat (c - field_m_alloc this) < 8" for c
    using that by (intro deallocate_this_effect(5)[OF d]) simp_all
  show "load_ptr h' q = load_ptr h q" if "apart p q \<and> apart (field_m_alloc this) q" for q
    using that by (intro deallocate_this_effect(6)[OF d]) simp_all
  show "load_ptr h' f = load_ptr h f" if "f \<in> set (other_fields this)" "apart p f" for f
    using that by (rule deallocate_this_fields[OF d])
  show "load_pool h' this = Inr (s\<lparr>m_alloc := p\<rparr>)"
    if "load_pool h this = Inr s \<and> (\<forall>f\<in>set (other_fields this). apart p f)" for s
    using that by (intro deallocate_this_pool[OF d]) simp_all
qed

theorem deallocate_frame_witness:
  "\<exists>h'. deallocate_this 0x3000 object_heap 0x2000 = Inr h' \<and>
      load_pool object_heap 0x3000 = Inr (fst (snd demo_state1)) \<and>
      m_alloc (fst (snd demo_state1)) = 0x2010 \<and>
      load_pool h' 0x3000 = Inr ((fst (snd demo_state1))\<lparr>m_alloc := 0x2000\<rparr>) \<and>
      load_ptr h' 0x2000 = Inr 0x2010 \<and>
      load_ptr h' 0x1000 = Inr 0x2000"
proof -
  let ?s = "fst (snd demo_state1)"
  have s: "load_pool object_heap 0x3000 = Inr ?s" "m_alloc ?s = 0x2010"
    by (simp_all add: object_heap_def demo_state1_def demo_pool_def demo_heap_def eval_defs)
  have old: "load_ptr object_heap (field_m_alloc 0x3000) = Inr 0x2010"
    using s by (simp add: load_pool_Inr_iff)
  have acc: "field_m_alloc 0x3000 \<noteq> 0 \<and> accessible object_heap (field_m_alloc 0x3000) 8 \<and>
      (0x2000 :: addr) \<noteq> 0 \<and> accessible object_heap 0x2000 8"
    by (simp add: object_heap_def demo_state1_def demo_pool_def demo_heap_def eval_defs)
  have t: "load_ptr object_heap 0x1000 = Inr 0x2000"
    by (simp add: object_heap_def demo_state1_def demo_pool_def demo_heap_def eval_defs)
  have a: "apart 0x2000 (field_m_alloc 0x3000)" "apart 0x2000 0x1000"
    "apart (field_m_alloc 0x3000) 0x1000" "\<forall>f\<in>set (other_fields 0x3000). apart 0x2000 f"
    by (simp_all add: apart_def field_m_alloc_def other_fields_def field_m_chunk_size_def
        field_m_chunks_per_block_def field_m_max_blocks_def field_m_current_block_index_def
        field_m_blocks_def)
  note f = deallocate_frame[of "0x3000" object_heap "0x2000"]
  from f acc obtain h' where d: "deallocate_this 0x3000 object_heap 0x2000 = Inr h'" by blast
  with f have e: "apart 0x2000 (field_m_alloc 0x3000) \<longrightarrow>
        load_ptr h' 0x2000 = load_ptr object_heap (field_m_alloc 0x3000)"
    "\<forall>q. apart 0x2000 q \<and> apart (field_m_alloc 0x3000) q \<longrightarrow> load_ptr h' q = load_ptr object_heap q"
    "\<forall>s. load_pool object_heap 0x3000 = Inr s \<and> (\<forall>f\<in>set (other_fields 0x3000). apart 0x2000 f) \<longrightarrow>
           load_pool h' 0x3000 = Inr (s\<lparr>m_alloc := 0x2000\<rparr>)"
    by blast+
  from e(1) a(1) old have l1: "load_ptr h' 0x2000 = Inr 0x2010" by simp
  from e(2) a(2,3) t have l2: "load_ptr h' 0x1000 = Inr 0x2000" by simp
  from e(3) s(1) a(4) have l3: "load_pool h' 0x3000 = Inr (?s\<lparr>m_alloc := 0x2000\<rparr>)" by blast
  show ?thesis using d s l1 l2 l3 by (intro exI[of _ h']) simp
qed

end
